theory Spec2Isabelle
  imports Main
begin

section \<open>StreamPay: the stream ledger and its settlement engine\<close>

text \<open>
  A shallow embedding of \<^verbatim>\<open>contracts/contracts/StreamPay.sol\<close> (Solidity 0.8.24, with the
  modifiers of OpenZeppelin 5 that it inherits) and of the decision cycle of the keeper
  agent \<^verbatim>\<open>runIntelligentKeeper\<close>. The functions keep their names, without the leading
  underscore of the internal ones (\<^verbatim>\<open>_updateStreamBalance\<close> is \<open>updateStreamBalance\<close>;
  \<open>getCurrentBalance\<close> is \<^verbatim>\<open>_getCurrentBalance\<close>, which the external view only calls).

  \<^item> A \<^verbatim>\<open>uint256\<close> is a natural number below \<open>2 ^ 256\<close>. Solidity 0.8 checks every
    \<^verbatim>\<open>+\<close>, \<^verbatim>\<open>-\<close> and \<^verbatim>\<open>*\<close>: an overflow or underflow is a panic that reverts the
    call, and so are a division by zero and an array index out of range. The checked
    operations below return that panic as a value.
  \<^item> A call either returns the new ledger (\<open>Inr\<close>) or reverts (\<open>Inl\<close>); a reverted call
    leaves the ledger it was given.
  \<^item> \<^verbatim>\<open>payable(a).call{value: v}("")\<close> is an atomic transfer: it succeeds when the
    contract holds \<open>v\<close> and the receiver accepts it. The ledger keeps the contract's
    balance and the list of the transfers it has made, each with the call site and the
    stream it was made for. The code of the receiver is not run: a call it makes back
    into a guarded function meets the entered guard and reverts, and it is taken not to
    call the owner's unguarded functions. Gas and events are not modelled.
\<close>

subsection \<open>Checked arithmetic and results\<close>

type_synonym address = nat

definition uint256_bound :: nat where
  "uint256_bound = 2 ^ 256"

datatype error =
    Revert string
  | Panic
  | ReentrancyGuardReentrantCall
  | EnforcedPause
  | ExpectedPause
  | OwnableUnauthorizedAccount address
  | OwnableInvalidOwner address

definition bindE :: "error + 'a \<Rightarrow> ('a \<Rightarrow> error + 'b) \<Rightarrow> error + 'b" where
  "bindE m f = (case m of Inl e \<Rightarrow> Inl e | Inr x \<Rightarrow> f x)"

definition checked_add :: "nat \<Rightarrow> nat \<Rightarrow> error + nat" where
  "checked_add a b = (if a + b < uint256_bound then Inr (a + b) else Inl Panic)"

definition checked_sub :: "nat \<Rightarrow> nat \<Rightarrow> error + nat" where
  "checked_sub a b = (if b \<le> a then Inr (a - b) else Inl Panic)"

definition checked_mul :: "nat \<Rightarrow> nat \<Rightarrow> error + nat" where
  "checked_mul a b = (if a * b < uint256_bound then Inr (a * b) else Inl Panic)"

subsection \<open>The ledger\<close>

record Stream =
  sender :: address
  recipient :: address
  totalAmount :: nat
  flowRate :: nat
  startTime :: nat
  lastUpdateTime :: nat
  stopTime :: nat
  amountWithdrawn :: nat
  realTimeBalance :: nat
  isActive :: bool
  streamType :: string
  description :: string

text \<open>The value of a storage slot that was never written.\<close>

definition empty_stream :: Stream where
  "empty_stream = \<lparr>sender = 0, recipient = 0, totalAmount = 0, flowRate = 0, startTime = 0,
     lastUpdateTime = 0, stopTime = 0, amountWithdrawn = 0, realTimeBalance = 0,
     isActive = False, streamType = [], description = []\<rparr>"

text \<open>The call sites that send value out of the contract.\<close>

datatype purpose = KeeperReward | Withdrawal | RecipientPayout | SenderRefund | Emergency

type_synonym payment = "purpose \<times> nat \<times> address \<times> nat"

record Ledger =
  streams :: "nat \<Rightarrow> Stream"
  userStreams :: "address \<Rightarrow> nat list"
  recipientStreams :: "address \<Rightarrow> nat list"
  activeStreamIds :: "nat list"
  activeStreamIndex :: "nat \<Rightarrow> nat"
  nextStreamId :: nat
  keeper :: address
  owner :: address
  paused :: bool
  totalStreamsCreated :: nat
  totalUpdatesPerformed :: nat
  totalVolumeStreamed :: nat
  lastBatchUpdateTime :: nat
  activeStreamCount :: nat
  entered :: bool
  balance :: nat
  sent :: "payment list"

text \<open>What a call sees of its transaction: the block's timestamp, the caller, and which
  addresses accept a transfer of value during this call.\<close>

record txenv =
  block_timestamp :: nat
  msg_sender :: address
  accepts :: "address \<Rightarrow> bool"

definition MAX_BATCH_SIZE :: nat where
  "MAX_BATCH_SIZE = 200"

definition MIN_UPDATE_INTERVAL :: nat where
  "MIN_UPDATE_INTERVAL = 1"

definition days365 :: nat where
  "days365 = 365 * 86400"

text \<open>\<^verbatim>\<open>constructor(address initialOwner) Ownable(initialOwner)\<close>: the first stream id is 1
  and the owner is the first keeper.\<close>

definition constructor :: "address \<Rightarrow> Ledger" where
  "constructor initialOwner =
     \<lparr>streams = (\<lambda>_. empty_stream), userStreams = (\<lambda>_. []), recipientStreams = (\<lambda>_. []),
      activeStreamIds = [], activeStreamIndex = (\<lambda>_. 0), nextStreamId = 1,
      keeper = initialOwner, owner = initialOwner, paused = False,
      totalStreamsCreated = 0, totalUpdatesPerformed = 0, totalVolumeStreamed = 0,
      lastBatchUpdateTime = 0, activeStreamCount = 0, entered = False, balance = 0,
      sent = []\<rparr>"

text \<open>
  The \<^verbatim>\<open>nonReentrant\<close> modifier of OpenZeppelin's \<^verbatim>\<open>ReentrancyGuard\<close>: the field
  \<open>entered\<close> is \<^verbatim>\<open>_status == ENTERED\<close>. \<^verbatim>\<open>_nonReentrantBefore\<close> reverts when the guard
  is entered and enters it otherwise; \<^verbatim>\<open>_nonReentrantAfter\<close> leaves it. A call made
  from inside a transfer of a guarded function sees a ledger whose guard is entered.
\<close>

definition nonReentrantBefore :: "Ledger \<Rightarrow> error + Ledger" where
  "nonReentrantBefore s =
     (if entered s then Inl ReentrancyGuardReentrantCall else Inr (s\<lparr>entered := True\<rparr>))"

definition nonReentrantAfter :: "Ledger \<Rightarrow> Ledger" where
  "nonReentrantAfter s = s\<lparr>entered := False\<rparr>"

text \<open>\<^verbatim>\<open>payable(receiver).call{value: v}("")\<close> made for stream \<open>streamId\<close> at call site \<open>p\<close>.\<close>

definition send :: "txenv \<Rightarrow> purpose \<Rightarrow> nat \<Rightarrow> address \<Rightarrow> nat \<Rightarrow> Ledger \<Rightarrow> Ledger option" where
  "send e p streamId receiver v s =
     (if accepts e receiver \<and> v \<le> balance s
      then Some (s\<lparr>balance := balance s - v, sent := sent s @ [(p, streamId, receiver, v)]\<rparr>)
      else None)"

text \<open>The transfer followed by \<^verbatim>\<open>require(success, message)\<close>.\<close>

definition pay ::
  "txenv \<Rightarrow> purpose \<Rightarrow> nat \<Rightarrow> address \<Rightarrow> nat \<Rightarrow> string \<Rightarrow> Ledger \<Rightarrow> error + Ledger" where
  "pay e p streamId receiver v message s =
     (case send e p streamId receiver v s of
        None \<Rightarrow> Inl (Revert message)
      | Some s' \<Rightarrow> Inr s')"

definition setStream :: "nat \<Rightarrow> Stream \<Rightarrow> Ledger \<Rightarrow> Ledger" where
  "setStream streamId st s = s\<lparr>streams := (streams s)(streamId := st)\<rparr>"

subsection \<open>Stream creation\<close>

definition createStreamInternal ::
  "nat \<Rightarrow> address \<Rightarrow> address \<Rightarrow> nat \<Rightarrow> nat \<Rightarrow> string \<Rightarrow> string \<Rightarrow> Ledger \<Rightarrow> error + (nat \<times> Ledger)" where
  "createStreamInternal now a_sender a_recipient amount duration a_type a_description s =
     (if duration = 0 then Inl Panic
      else let rate = amount div duration in
      if \<not> rate > 0 then Inl (Revert ''StreamPay: Flow rate too low'')
      else
        let streamId = nextStreamId s in
        bindE (checked_add (nextStreamId s) 1) (\<lambda>next_id.
        bindE (checked_add now duration) (\<lambda>stop.
        let ids = activeStreamIds s @ [streamId] in
        bindE (checked_sub (length ids) 1) (\<lambda>pos.
        bindE (checked_add (totalStreamsCreated s) 1) (\<lambda>created.
        bindE (checked_add (activeStreamCount s) 1) (\<lambda>active_count.
        bindE (checked_add (totalVolumeStreamed s) amount) (\<lambda>volume.
          Inr (streamId,
            s\<lparr>nextStreamId := next_id,
              streams := (streams s)(streamId :=
                \<lparr>sender = a_sender, recipient = a_recipient, totalAmount = amount,
                 flowRate = rate, startTime = now, lastUpdateTime = now, stopTime = stop,
                 amountWithdrawn = 0, realTimeBalance = 0, isActive = True,
                 streamType = a_type, description = a_description\<rparr>),
              activeStreamIds := ids,
              activeStreamIndex := (activeStreamIndex s)(streamId := pos),
              userStreams := (userStreams s)(a_sender := userStreams s a_sender @ [streamId]),
              recipientStreams :=
                (recipientStreams s)(a_recipient := recipientStreams s a_recipient @ [streamId]),
              totalStreamsCreated := created,
              activeStreamCount := active_count,
              totalVolumeStreamed := volume\<rparr>))))))))"

text \<open>
  Every external function with modifiers is given in two parts: \<open>f_body\<close> is
  \<^verbatim>\<open>whenNotPaused\<close> followed by the body of the function, and \<open>f\<close> runs it between
  \<^verbatim>\<open>_nonReentrantBefore\<close> and \<^verbatim>\<open>_nonReentrantAfter\<close>, in the order
  \<^verbatim>\<open>nonReentrant whenNotPaused\<close> of the source.

  \<^verbatim>\<open>createStream\<close> is payable: \<open>msg_value\<close> is credited to the contract before the
  body runs, and the credit is undone with everything else when the call reverts.
\<close>

definition createStream_body ::
  "txenv \<Rightarrow> nat \<Rightarrow> address \<Rightarrow> nat \<Rightarrow> string \<Rightarrow> string \<Rightarrow> Ledger \<Rightarrow> error + (nat \<times> Ledger)" where
  "createStream_body e msg_value a_recipient duration a_type a_description s =
     (if paused s then Inl EnforcedPause
      else if \<not> msg_value > 0 then Inl (Revert ''StreamPay: Amount must be greater than 0'')
      else if \<not> a_recipient \<noteq> 0 then Inl (Revert ''StreamPay: Invalid recipient'')
      else if \<not> a_recipient \<noteq> msg_sender e then Inl (Revert ''StreamPay: Cannot stream to yourself'')
      else if \<not> duration > 0 then Inl (Revert ''StreamPay: Duration must be greater than 0'')
      else if \<not> duration \<le> days365 then Inl (Revert ''StreamPay: Duration too long'')
      else if \<not> length a_type > 0 then Inl (Revert ''StreamPay: Stream type required'')
      else if \<not> msg_value \<ge> duration then Inl (Revert ''StreamPay: Amount too small for duration'')
      else createStreamInternal (block_timestamp e) (msg_sender e) a_recipient msg_value duration
             a_type a_description (s\<lparr>balance := balance s + msg_value\<rparr>))"

definition createStream ::
  "txenv \<Rightarrow> nat \<Rightarrow> address \<Rightarrow> nat \<Rightarrow> string \<Rightarrow> string \<Rightarrow> Ledger \<Rightarrow> error + (nat \<times> Ledger)" where
  "createStream e msg_value a_recipient duration a_type a_description s =
     bindE (nonReentrantBefore s) (\<lambda>s0.
     bindE (createStream_body e msg_value a_recipient duration a_type a_description s0)
       (\<lambda>(streamId, s1). Inr (streamId, nonReentrantAfter s1)))"

text \<open>The loop of \<^verbatim>\<open>createGroupStream\<close> over the recipients.\<close>

fun createGroupLoop ::
  "txenv \<Rightarrow> address list \<Rightarrow> nat \<Rightarrow> nat \<Rightarrow> string \<Rightarrow> string \<Rightarrow> Ledger \<Rightarrow> error + Ledger" where
  "createGroupLoop e [] amountPerRecipient duration a_type a_description s = Inr s"
| "createGroupLoop e (r # rs) amountPerRecipient duration a_type a_description s =
     (if \<not> r \<noteq> 0 then Inl (Revert ''StreamPay: Invalid recipient address'')
      else if \<not> r \<noteq> msg_sender e then Inl (Revert ''StreamPay: Cannot stream to yourself'')
      else bindE (createStreamInternal (block_timestamp e) (msg_sender e) r amountPerRecipient
                    duration a_type a_description s)
             (\<lambda>(streamId, s'). createGroupLoop e rs amountPerRecipient duration a_type a_description s'))"

definition createGroupStream_body ::
  "txenv \<Rightarrow> nat \<Rightarrow> address list \<Rightarrow> nat \<Rightarrow> string \<Rightarrow> string \<Rightarrow> Ledger \<Rightarrow> error + Ledger" where
  "createGroupStream_body e msg_value recipients duration a_type a_description s =
     (if paused s then Inl EnforcedPause
      else if \<not> length recipients > 0 then Inl (Revert ''StreamPay: No recipients'')
      else if \<not> length recipients \<le> 50 then Inl (Revert ''StreamPay: Too many recipients'')
      else if \<not> msg_value > 0 then Inl (Revert ''StreamPay: Amount must be greater than 0'')
      else if \<not> duration > 0 then Inl (Revert ''StreamPay: Duration must be greater than 0'')
      else if \<not> duration \<le> days365 then Inl (Revert ''StreamPay: Duration too long'')
      else if \<not> length a_type > 0 then Inl (Revert ''StreamPay: Stream type required'')
      else if \<not> msg_value mod length recipients = 0
        then Inl (Revert ''StreamPay: Amount not evenly divisible'')
      else let amountPerRecipient = msg_value div length recipients in
      if \<not> amountPerRecipient \<ge> duration
        then Inl (Revert ''StreamPay: Amount per recipient too small for duration'')
      else createGroupLoop e recipients amountPerRecipient duration a_type a_description
             (s\<lparr>balance := balance s + msg_value\<rparr>))"

definition createGroupStream ::
  "txenv \<Rightarrow> nat \<Rightarrow> address list \<Rightarrow> nat \<Rightarrow> string \<Rightarrow> string \<Rightarrow> Ledger \<Rightarrow> error + Ledger" where
  "createGroupStream e msg_value recipients duration a_type a_description s =
     bindE (nonReentrantBefore s) (\<lambda>s0.
     bindE (createGroupStream_body e msg_value recipients duration a_type a_description s0)
       (\<lambda>s1. Inr (nonReentrantAfter s1)))"

subsection \<open>Deactivation: swap with the last entry and pop\<close>

definition deactivateStream :: "nat \<Rightarrow> Ledger \<Rightarrow> error + Ledger" where
  "deactivateStream streamId s =
     (if \<not> isActive (streams s streamId) \<or> length (activeStreamIds s) = 0 then Inr s
      else
        bindE (checked_sub (activeStreamCount s) 1) (\<lambda>active_count.
        let index = activeStreamIndex s streamId in
        bindE (checked_sub (length (activeStreamIds s)) 1) (\<lambda>last_pos.
        let lastStreamId = activeStreamIds s ! last_pos in
        if \<not> index < length (activeStreamIds s) then Inl Panic
        else
          Inr (s\<lparr>streams := (streams s)(streamId := (streams s streamId)\<lparr>isActive := False\<rparr>),
                 activeStreamCount := active_count,
                 activeStreamIds := butlast ((activeStreamIds s)[index := lastStreamId]),
                 activeStreamIndex :=
                   ((activeStreamIndex s)(lastStreamId := index))(streamId := 0)\<rparr>))))"

subsection \<open>Realizing accrued balance\<close>

definition updateStreamBalance :: "txenv \<Rightarrow> nat \<Rightarrow> Ledger \<Rightarrow> error + (bool \<times> Ledger)" where
  "updateStreamBalance e streamId s =
     (let stream = streams s streamId; now = block_timestamp e in
      if \<not> isActive stream \<or> now \<le> lastUpdateTime stream then Inr (False, s)
      else
        let timeElapsed = now - lastUpdateTime stream;
            maxTimeElapsed = (if stopTime stream > lastUpdateTime stream
                              then stopTime stream - lastUpdateTime stream else 0)
        in
        if maxTimeElapsed = 0 then bindE (deactivateStream streamId s) (\<lambda>s'. Inr (False, s'))
        else
          let effectiveTimeElapsed =
                (if timeElapsed > maxTimeElapsed then maxTimeElapsed else timeElapsed) in
          bindE (checked_mul effectiveTimeElapsed (flowRate stream)) (\<lambda>newAmount.
          let keeperReward = (newAmount * 1) div 1000 in
          bindE
            (if keeperReward > 0 \<and> newAmount > keeperReward then
               bindE (checked_add (realTimeBalance stream) (newAmount - keeperReward)) (\<lambda>b.
                 pay e KeeperReward streamId (msg_sender e) keeperReward
                   ''StreamPay: Keeper reward failed''
                   (setStream streamId (stream\<lparr>realTimeBalance := b\<rparr>) s))
             else
               bindE (checked_add (realTimeBalance stream) newAmount) (\<lambda>b.
                 Inr (setStream streamId (stream\<lparr>realTimeBalance := b\<rparr>) s)))
            (\<lambda>s1.
          let s2 = setStream streamId ((streams s1 streamId)\<lparr>lastUpdateTime := now\<rparr>) s1 in
          if now \<ge> stopTime (streams s2 streamId)
          then bindE (deactivateStream streamId s2) (\<lambda>s3. Inr (True, s3))
          else Inr (True, s2))))"

definition getCurrentBalance :: "nat \<Rightarrow> nat \<Rightarrow> Ledger \<Rightarrow> error + nat" where
  "getCurrentBalance now streamId s =
     (let stream = streams s streamId in
      if \<not> isActive stream then Inr 0
      else
        let currentTime = (if now > stopTime stream then stopTime stream else now) in
        if currentTime \<le> lastUpdateTime stream
        then checked_sub (realTimeBalance stream) (amountWithdrawn stream)
        else
          let timeElapsed = currentTime - lastUpdateTime stream in
          bindE (checked_mul timeElapsed (flowRate stream)) (\<lambda>additionalAmount.
          bindE (checked_add (realTimeBalance stream) additionalAmount) (\<lambda>totalBalance.
            Inr (if totalBalance > amountWithdrawn stream
                 then totalBalance - amountWithdrawn stream else 0))))"

subsection \<open>Batch settlement\<close>

fun updateLoop :: "txenv \<Rightarrow> nat list \<Rightarrow> nat \<Rightarrow> Ledger \<Rightarrow> error + (nat \<times> Ledger)" where
  "updateLoop e [] updatedCount s = Inr (updatedCount, s)"
| "updateLoop e (streamId # rest) updatedCount s =
     bindE (updateStreamBalance e streamId s) (\<lambda>(success, s').
       if success
       then bindE (checked_add updatedCount 1) (\<lambda>c. updateLoop e rest c s')
       else updateLoop e rest updatedCount s')"

definition batchUpdateStreams_body :: "txenv \<Rightarrow> nat list \<Rightarrow> Ledger \<Rightarrow> error + Ledger" where
  "batchUpdateStreams_body e streamIds s =
     (if paused s then Inl EnforcedPause
      else if \<not> length streamIds \<le> MAX_BATCH_SIZE then Inl (Revert ''StreamPay: Batch too large'')
      else
        bindE (checked_add (lastBatchUpdateTime s) MIN_UPDATE_INTERVAL) (\<lambda>earliest.
        if \<not> block_timestamp e \<ge> earliest then Inl (Revert ''StreamPay: Too frequent updates'')
        else
          bindE (updateLoop e streamIds 0 s) (\<lambda>(updatedCount, s1).
          bindE (checked_add (totalUpdatesPerformed s1) updatedCount) (\<lambda>total.
            Inr (s1\<lparr>totalUpdatesPerformed := total,
                    lastBatchUpdateTime := block_timestamp e\<rparr>)))))"

definition batchUpdateStreams :: "txenv \<Rightarrow> nat list \<Rightarrow> Ledger \<Rightarrow> error + Ledger" where
  "batchUpdateStreams e streamIds s =
     bindE (nonReentrantBefore s) (\<lambda>s0.
     bindE (batchUpdateStreams_body e streamIds s0) (\<lambda>s1. Inr (nonReentrantAfter s1)))"

subsection \<open>Withdrawal and cancellation\<close>

definition withdrawFromStream_body :: "txenv \<Rightarrow> nat \<Rightarrow> Ledger \<Rightarrow> error + Ledger" where
  "withdrawFromStream_body e streamId s =
     (if paused s then Inl EnforcedPause
      else if \<not> isActive (streams s streamId) then Inl (Revert ''StreamPay: Stream not active'')
      else if \<not> msg_sender e = recipient (streams s streamId)
        then Inl (Revert ''StreamPay: Not the recipient'')
      else
        bindE (updateStreamBalance e streamId s) (\<lambda>(success, s1).
        let stream = streams s1 streamId in
        bindE (checked_sub (realTimeBalance stream) (amountWithdrawn stream)) (\<lambda>withdrawableAmount.
        if \<not> withdrawableAmount > 0 then Inl (Revert ''StreamPay: No funds to withdraw'')
        else
          bindE (checked_add (amountWithdrawn stream) withdrawableAmount) (\<lambda>w.
          pay e Withdrawal streamId (recipient stream) withdrawableAmount
            ''StreamPay: Transfer failed''
            (setStream streamId (stream\<lparr>amountWithdrawn := w\<rparr>) s1)))))"

definition withdrawFromStream :: "txenv \<Rightarrow> nat \<Rightarrow> Ledger \<Rightarrow> error + Ledger" where
  "withdrawFromStream e streamId s =
     bindE (nonReentrantBefore s) (\<lambda>s0.
     bindE (withdrawFromStream_body e streamId s0) (\<lambda>s1. Inr (nonReentrantAfter s1)))"

text \<open>The two amounts \<^verbatim>\<open>cancelStream\<close> computes from the realized stream:
  \<^verbatim>\<open>recipientBalance\<close> and \<^verbatim>\<open>senderRefund\<close>.\<close>

definition cancelAmounts :: "Stream \<Rightarrow> error + (nat \<times> nat)" where
  "cancelAmounts stream =
     bindE (checked_sub (realTimeBalance stream) (amountWithdrawn stream)) (\<lambda>recipientBalance.
     bindE (checked_add (amountWithdrawn stream) recipientBalance) (\<lambda>totalUsed.
       Inr (recipientBalance,
            if totalAmount stream > totalUsed then totalAmount stream - totalUsed else 0)))"

definition cancelStream_body :: "txenv \<Rightarrow> nat \<Rightarrow> Ledger \<Rightarrow> error + Ledger" where
  "cancelStream_body e streamId s =
     (if paused s then Inl EnforcedPause
      else if \<not> isActive (streams s streamId)
        then Inl (Revert ''StreamPay: Stream already inactive'')
      else if \<not> (msg_sender e = sender (streams s streamId)
                 \<or> msg_sender e = recipient (streams s streamId))
        then Inl (Revert ''StreamPay: Unauthorized'')
      else
        bindE (updateStreamBalance e streamId s) (\<lambda>(success, s1).
        let stream = streams s1 streamId in
        bindE (cancelAmounts stream) (\<lambda>(recipientBalance, senderRefund).
        bindE (deactivateStream streamId s1) (\<lambda>s2.
        bindE
          (if recipientBalance > 0
           then pay e RecipientPayout streamId (recipient stream) recipientBalance
                  ''StreamPay: Recipient transfer failed'' s2
           else Inr s2)
          (\<lambda>s3.
        if senderRefund > 0
        then pay e SenderRefund streamId (sender stream) senderRefund
               ''StreamPay: Sender refund failed'' s3
        else Inr s3)))))"

definition cancelStream :: "txenv \<Rightarrow> nat \<Rightarrow> Ledger \<Rightarrow> error + Ledger" where
  "cancelStream e streamId s =
     bindE (nonReentrantBefore s) (\<lambda>s0.
     bindE (cancelStream_body e streamId s0) (\<lambda>s1. Inr (nonReentrantAfter s1)))"

subsection \<open>Administration (OpenZeppelin \<^verbatim>\<open>Ownable\<close> and \<^verbatim>\<open>Pausable\<close>)\<close>

text \<open>None of these carries \<^verbatim>\<open>nonReentrant\<close>.\<close>

definition setKeeper :: "txenv \<Rightarrow> address \<Rightarrow> Ledger \<Rightarrow> error + Ledger" where
  "setKeeper e newKeeper s =
     (if msg_sender e \<noteq> owner s then Inl (OwnableUnauthorizedAccount (msg_sender e))
      else if \<not> newKeeper \<noteq> 0 then Inl (Revert ''StreamPay: Invalid keeper address'')
      else Inr (s\<lparr>keeper := newKeeper\<rparr>))"

definition pause :: "txenv \<Rightarrow> Ledger \<Rightarrow> error + Ledger" where
  "pause e s =
     (if msg_sender e \<noteq> owner s then Inl (OwnableUnauthorizedAccount (msg_sender e))
      else if paused s then Inl EnforcedPause
      else Inr (s\<lparr>paused := True\<rparr>))"

definition unpause :: "txenv \<Rightarrow> Ledger \<Rightarrow> error + Ledger" where
  "unpause e s =
     (if msg_sender e \<noteq> owner s then Inl (OwnableUnauthorizedAccount (msg_sender e))
      else if \<not> paused s then Inl ExpectedPause
      else Inr (s\<lparr>paused := False\<rparr>))"

definition emergencyWithdraw :: "txenv \<Rightarrow> Ledger \<Rightarrow> error + Ledger" where
  "emergencyWithdraw e s =
     (if msg_sender e \<noteq> owner s then Inl (OwnableUnauthorizedAccount (msg_sender e))
      else if \<not> paused s then Inl ExpectedPause
      else pay e Emergency 0 (owner s) (balance s)
             ''StreamPay: Emergency withdrawal failed'' s)"

definition transferOwnership :: "txenv \<Rightarrow> address \<Rightarrow> Ledger \<Rightarrow> error + Ledger" where
  "transferOwnership e newOwner s =
     (if msg_sender e \<noteq> owner s then Inl (OwnableUnauthorizedAccount (msg_sender e))
      else if newOwner = 0 then Inl (OwnableInvalidOwner 0)
      else Inr (s\<lparr>owner := newOwner\<rparr>))"

definition renounceOwnership :: "txenv \<Rightarrow> Ledger \<Rightarrow> error + Ledger" where
  "renounceOwnership e s =
     (if msg_sender e \<noteq> owner s then Inl (OwnableUnauthorizedAccount (msg_sender e))
      else Inr (s\<lparr>owner := 0\<rparr>))"

subsection \<open>The external interface and the reachable ledgers\<close>

datatype call =
    CreateStream nat address nat string string
  | CreateGroupStream nat "address list" nat string string
  | BatchUpdateStreams "nat list"
  | WithdrawFromStream nat
  | CancelStream nat
  | SetKeeper address
  | Pause
  | Unpause
  | EmergencyWithdraw
  | TransferOwnership address
  | RenounceOwnership

fun execute :: "txenv \<Rightarrow> call \<Rightarrow> Ledger \<Rightarrow> error + Ledger" where
  "execute e (CreateStream msg_value a_recipient duration a_type a_description) s =
     bindE (createStream e msg_value a_recipient duration a_type a_description s)
       (\<lambda>(streamId, s'). Inr s')"
| "execute e (CreateGroupStream msg_value recipients duration a_type a_description) s =
     createGroupStream e msg_value recipients duration a_type a_description s"
| "execute e (BatchUpdateStreams streamIds) s = batchUpdateStreams e streamIds s"
| "execute e (WithdrawFromStream streamId) s = withdrawFromStream e streamId s"
| "execute e (CancelStream streamId) s = cancelStream e streamId s"
| "execute e (SetKeeper newKeeper) s = setKeeper e newKeeper s"
| "execute e Pause s = pause e s"
| "execute e Unpause s = unpause e s"
| "execute e EmergencyWithdraw s = emergencyWithdraw e s"
| "execute e (TransferOwnership newOwner) s = transferOwnership e newOwner s"
| "execute e RenounceOwnership s = renounceOwnership e s"

text \<open>A ledger is reachable when some sequence of successful calls leads to it from the
  freshly constructed contract. Callers, values and timestamps are unconstrained, so every
  ledger the deployed contract can be in between two transactions is reachable in this
  sense.\<close>

inductive reachable :: "Ledger \<Rightarrow> bool" where
  reachable_init: "reachable (constructor initialOwner)"
| reachable_step: "reachable s \<Longrightarrow> execute e c s = Inr s' \<Longrightarrow> reachable s'"

text \<open>\<open>later s s'\<close>: the ledger \<open>s'\<close> follows \<open>s\<close> after any number of successful calls.\<close>

inductive later :: "Ledger \<Rightarrow> Ledger \<Rightarrow> bool" where
  later_refl: "later s s"
| later_step: "later s s1 \<Longrightarrow> execute e c s1 = Inr s' \<Longrightarrow> later s s'"

section \<open>The keeper agent\<close>


text \<open>A batch of the answer. \<open>streamIds = None\<close> stands for a batch without the field, or
  with an id that \<^verbatim>\<open>BigInt\<close> or the ABI encoder rejects: then
  \<^verbatim>\<open>batch.streamIds.map(id => BigInt(id))\<close> or the encoding throws before anything is sent.\<close>

record batch =
  streamIds :: "nat list option"
  count :: nat
  reason :: string






datatype keeper_event =
    NoStreamsToUpdate
  | Analyzing nat
  | GasPrice nat
  | NotProfitable string
  | Profitable string
  | UpdatingBatch nat
  | TxSent "nat list"
  | TxConfirmed
  | BatchFailed
  | KeeperCycleError



section \<open>Vocabulary of the proofs\<close>

text \<open>Swap-with-last removal on a list: what \<^verbatim>\<open>_deactivateStream\<close> does to
  \<^verbatim>\<open>activeStreamIds\<close> for the entry at position \<open>k\<close>.\<close>

definition swap_remove :: "nat list \<Rightarrow> nat \<Rightarrow> nat list" where
  "swap_remove xs k = butlast (xs[k := xs ! (length xs - 1)])"

text \<open>The total value sent so far for stream \<open>streamId\<close> at call site \<open>p\<close>.\<close>

definition paid :: "purpose \<Rightarrow> nat \<Rightarrow> payment list \<Rightarrow> nat" where
  "paid p streamId log = sum_list (map (\<lambda>(q, i, a, v). if q = p \<and> i = streamId then v else 0) log)"

text \<open>The index is correct: no id twice, an id is listed exactly when its stream is
  active, the index map records the position of every listed id, and the counter is the
  length of the list.\<close>

definition index_inv :: "Ledger \<Rightarrow> bool" where
  "index_inv s \<longleftrightarrow>
     distinct (activeStreamIds s) \<and>
     (\<forall>i. i \<in> set (activeStreamIds s) \<longleftrightarrow> isActive (streams s i)) \<and>
     (\<forall>k < length (activeStreamIds s). activeStreamIndex s (activeStreamIds s ! k) = k) \<and>
     activeStreamCount s = length (activeStreamIds s)"

text \<open>The ledger that \<^verbatim>\<open>_deactivateStream\<close> returns for an active stream of a ledger
  with a correct index.\<close>

definition deactivated :: "nat \<Rightarrow> Ledger \<Rightarrow> Ledger" where
  "deactivated i s =
     s\<lparr>streams := (streams s)(i := (streams s i)\<lparr>isActive := False\<rparr>),
       activeStreamCount := activeStreamCount s - 1,
       activeStreamIds := swap_remove (activeStreamIds s) (activeStreamIndex s i),
       activeStreamIndex :=
         ((activeStreamIndex s)(activeStreamIds s ! (length (activeStreamIds s) - 1) :=
            activeStreamIndex s i))(i := 0)\<rparr>"

text \<open>What has accrued to a stream up to its last update.\<close>

definition accrued :: "Stream \<Rightarrow> nat" where
  "accrued st = flowRate st * (min (lastUpdateTime st) (stopTime st) - startTime st)"

text \<open>The accounting of one stream against the transfers made for it: withdrawals never
  exceed the realized balance; the realized balance and the keeper fees together are what
  has accrued; a thousand times the fees is at most what has accrued; what accrues over
  the whole duration is at most \<open>totalAmount\<close>; the withdrawals sent are
  \<open>amountWithdrawn\<close>; an active stream has had no cancellation payout.\<close>

definition acct_ok :: "nat \<Rightarrow> Stream \<Rightarrow> payment list \<Rightarrow> bool" where
  "acct_ok i st log \<longleftrightarrow>
     amountWithdrawn st \<le> realTimeBalance st \<and>
     startTime st \<le> lastUpdateTime st \<and>
     startTime st \<le> stopTime st \<and>
     flowRate st * (stopTime st - startTime st) \<le> totalAmount st \<and>
     totalAmount st < uint256_bound \<and>
     realTimeBalance st + paid KeeperReward i log = accrued st \<and>
     1000 * paid KeeperReward i log \<le> accrued st \<and>
     paid Withdrawal i log = amountWithdrawn st \<and>
     (isActive st \<longrightarrow> paid RecipientPayout i log = 0 \<and> paid SenderRefund i log = 0)"

definition accounts_inv :: "Ledger \<Rightarrow> bool" where
  "accounts_inv s \<longleftrightarrow> (\<forall>i. acct_ok i (streams s i) (sent s))"

text \<open>An active stream has not reached its stop time at its last update, and its id has
  been issued.\<close>

definition live_inv :: "Ledger \<Rightarrow> bool" where
  "live_inv s \<longleftrightarrow>
     (\<forall>i. isActive (streams s i) \<longrightarrow>
        lastUpdateTime (streams s i) < stopTime (streams s i) \<and> i < nextStreamId s)"

text \<open>Every transfer was made for an id that has been issued.\<close>

definition log_inv :: "Ledger \<Rightarrow> bool" where
  "log_inv s \<longleftrightarrow> 0 < nextStreamId s \<and> (\<forall>x \<in> set (sent s). fst (snd x) < nextStreamId s)"

text \<open>The invariant of the reachable ledgers.\<close>

definition ledger_inv :: "Ledger \<Rightarrow> bool" where
  "ledger_inv s \<longleftrightarrow> index_inv s \<and> accounts_inv s \<and> live_inv s \<and> log_inv s"

text \<open>The amount that accrues between the last update and \<open>now\<close>.\<close>

definition newAmountAt :: "nat \<Rightarrow> Stream \<Rightarrow> nat" where
  "newAmountAt now st = flowRate st * (min now (stopTime st) - lastUpdateTime st)"

text \<open>The ledger after \<^verbatim>\<open>_updateStreamBalance\<close> has credited an active stream and paid
  the keeper, before the check for completion.\<close>

definition realized :: "txenv \<Rightarrow> nat \<Rightarrow> Ledger \<Rightarrow> Ledger" where
  "realized e i s =
     (let st = streams s i; n = newAmountAt (block_timestamp e) st; fee = n div 1000 in
      if 0 < fee
      then s\<lparr>balance := balance s - fee,
             sent := sent s @ [(KeeperReward, i, msg_sender e, fee)],
             streams := (streams s)(i := st\<lparr>realTimeBalance := realTimeBalance st + (n - fee),
                                              lastUpdateTime := block_timestamp e\<rparr>)\<rparr>
      else s\<lparr>streams := (streams s)(i := st\<lparr>realTimeBalance := realTimeBalance st + n,
                                              lastUpdateTime := block_timestamp e\<rparr>)\<rparr>)"

text \<open>The ledger after \<^verbatim>\<open>_createStreamInternal\<close> has succeeded.\<close>

definition created ::
  "nat \<Rightarrow> address \<Rightarrow> address \<Rightarrow> nat \<Rightarrow> nat \<Rightarrow> string \<Rightarrow> string \<Rightarrow> Ledger \<Rightarrow> Ledger" where
  "created now a b amount duration t d s =
     s\<lparr>nextStreamId := nextStreamId s + 1,
       streams := (streams s)(nextStreamId s :=
         \<lparr>sender = a, recipient = b, totalAmount = amount,
          flowRate = amount div duration, startTime = now, lastUpdateTime = now,
          stopTime = now + duration, amountWithdrawn = 0, realTimeBalance = 0, isActive = True,
          streamType = t, description = d\<rparr>),
       activeStreamIds := activeStreamIds s @ [nextStreamId s],
       activeStreamIndex := (activeStreamIndex s)(nextStreamId s := length (activeStreamIds s)),
       userStreams := (userStreams s)(a := userStreams s a @ [nextStreamId s]),
       recipientStreams := (recipientStreams s)(b := recipientStreams s b @ [nextStreamId s]),
       totalStreamsCreated := totalStreamsCreated s + 1,
       activeStreamCount := activeStreamCount s + 1,
       totalVolumeStreamed := totalVolumeStreamed s + amount\<rparr>"

text \<open>The two optional transfers at the end of \<^verbatim>\<open>cancelStream\<close>.\<close>

definition payouts :: "txenv \<Rightarrow> nat \<Rightarrow> Stream \<Rightarrow> Ledger \<Rightarrow> error + Ledger" where
  "payouts e i st s2 =
     bindE
       (if realTimeBalance st - amountWithdrawn st > 0
        then pay e RecipientPayout i (recipient st) (realTimeBalance st - amountWithdrawn st)
               ''StreamPay: Recipient transfer failed'' s2
        else Inr s2)
       (\<lambda>s3.
          if (if totalAmount st > realTimeBalance st
              then totalAmount st - realTimeBalance st else 0) > 0
          then pay e SenderRefund i (sender st)
                 (if totalAmount st > realTimeBalance st
                  then totalAmount st - realTimeBalance st else 0)
                 ''StreamPay: Sender refund failed'' s3
          else Inr s3)"

text \<open>Running a list of calls, each in its own transaction context, until one reverts.\<close>

fun run :: "(txenv \<times> call) list \<Rightarrow> Ledger \<Rightarrow> error + Ledger" where
  "run [] s = Inr s"
| "run ((e, c) # cs) s = bindE (execute e c s) (run cs)"

text \<open>The ledger that a list of calls leads to from a contract deployed by address 1.\<close>

definition ledger_after :: "(txenv \<times> call) list \<Rightarrow> Ledger" where
  "ledger_after cs = (case run cs (constructor 1) of Inr s \<Rightarrow> s | Inl err \<Rightarrow> constructor 1)"

text \<open>A transaction context at time \<open>t\<close> from caller \<open>a\<close> in which every address accepts
  transfers.\<close>

definition tx :: "nat \<Rightarrow> address \<Rightarrow> txenv" where
  "tx t a = \<lparr>block_timestamp = t, msg_sender = a, accepts = (\<lambda>_. True)\<rparr>"

text \<open>Example histories: two streams of 3600 units over 3600 seconds created at time 1000;
  a batch settlement of both at 2800; then either the sender of stream 2 cancels at 3000,
  or a second batch settles both after their stop time 4600.\<close>

definition two_streams :: "(txenv \<times> call) list" where
  "two_streams =
     [(tx 1000 7, CreateStream 3600 8 3600 ''work'' ''demo''),
      (tx 1000 17, CreateStream 3600 18 3600 ''work'' ''demo'')]"

definition settled_once :: "(txenv \<times> call) list" where
  "settled_once = two_streams @ [(tx 2800 9, BatchUpdateStreams [1, 2])]"

definition cancelled :: "(txenv \<times> call) list" where
  "cancelled = settled_once @ [(tx 3000 17, CancelStream 2)]"

definition expired :: "(txenv \<times> call) list" where
  "expired = settled_once @ [(tx 5000 9, BatchUpdateStreams [1, 2])]"

text \<open>A single stream of 3600 units over 3600 seconds created at time 1000 and settled
  once at 2800.\<close>

definition sole_stream :: "(txenv \<times> call) list" where
  "sole_stream = [(tx 1000 17, CreateStream 3600 18 3600 ''work'' ''demo'')]"

definition sole_settled :: "(txenv \<times> call) list" where
  "sole_settled = sole_stream @ [(tx 2800 9, BatchUpdateStreams [1])]"

text \<open>\<open>frozen i s s'\<close>: between \<open>s\<close> and \<open>s'\<close> nothing happened to stream \<open>i\<close>: its record
  is the same and no transfer was made for it.\<close>

definition frozen :: "nat \<Rightarrow> Ledger \<Rightarrow> Ledger \<Rightarrow> bool" where
  "frozen i s s' \<longleftrightarrow>
     streams s' i = streams s i \<and> nextStreamId s \<le> nextStreamId s' \<and>
     (\<forall>p. p \<noteq> Emergency \<longrightarrow> paid p i (sent s') = paid p i (sent s))"

text \<open>After both streams have expired, the recipient of stream 1 creates a third stream.\<close>

definition locked_then_created :: "(txenv \<times> call) list" where
  "locked_then_created = expired @ [(tx 6000 8, CreateStream 500 18 100 ''gaming'' ''later'')]"

text \<open>A stream that \<^verbatim>\<open>_updateStreamBalance\<close> would settle at \<open>now\<close>, and the keeper fee that
  settling it pays.\<close>

definition settleable :: "nat \<Rightarrow> Stream \<Rightarrow> bool" where
  "settleable now st \<longleftrightarrow> isActive st \<and> lastUpdateTime st < now"

definition keeperFeeDue :: "nat \<Rightarrow> Stream \<Rightarrow> nat" where
  "keeperFeeDue now st =
     (if isActive st \<and> lastUpdateTime st < now
      then flowRate st * (min now (stopTime st) - lastUpdateTime st) div 1000 else 0)"

text \<open>The ledger after a transaction: a reverted call leaves the ledger it was given.\<close>

definition transact :: "txenv \<Rightarrow> call \<Rightarrow> Ledger \<Rightarrow> Ledger" where
  "transact e c s = (case execute e c s of Inl err \<Rightarrow> s | Inr s' \<Rightarrow> s')"

text \<open>A transaction context whose caller (like every other address) refuses transfers.\<close>

definition refusing :: "nat \<Rightarrow> address \<Rightarrow> txenv" where
  "refusing t a = \<lparr>block_timestamp = t, msg_sender = a, accepts = (\<lambda>_. False)\<rparr>"

text \<open>The keeper fees that settling the streams \<open>ids\<close> at \<open>now\<close> pays in all; a stream
  listed twice is settled, and pays, once.\<close>

definition feesDue :: "nat \<Rightarrow> nat list \<Rightarrow> Ledger \<Rightarrow> nat" where
  "feesDue now ids s = (\<Sum>i \<in> set ids. keeperFeeDue now (streams s i))"

text \<open>The settlement transactions that a cycle of the keeper agent has sent.\<close>

definition submissions :: "keeper_event list \<Rightarrow> nat list list" where
  "submissions evs = concat (map (\<lambda>ev. case ev of TxSent ids \<Rightarrow> [ids] | _ \<Rightarrow> []) evs)"






section \<open>Invariants of the reachable ledgers\<close>

subsection \<open>Results, checked arithmetic and swap-with-last removal\<close>

lemma bindE_Inr [simp]: "bindE (Inr x) f = f x"
  by (simp add: bindE_def)

lemma bindE_Inl [simp]: "bindE (Inl e) f = Inl e"
  by (simp add: bindE_def)

lemma bindE_eq_Inr: "bindE m f = Inr y \<longleftrightarrow> (\<exists>x. m = Inr x \<and> f x = Inr y)"
  by (cases m) simp_all

lemma checked_add_eq_Inr: "checked_add a b = Inr c \<longleftrightarrow> c = a + b \<and> a + b < uint256_bound"
  by (auto simp: checked_add_def)

lemma checked_sub_eq_Inr: "checked_sub a b = Inr c \<longleftrightarrow> c = a - b \<and> b \<le> a"
  by (auto simp: checked_sub_def)

lemma checked_mul_eq_Inr: "checked_mul a b = Inr c \<longleftrightarrow> c = a * b \<and> a * b < uint256_bound"
  by (auto simp: checked_mul_def)

lemma length_swap_remove [simp]: "length (swap_remove xs k) = length xs - 1"
  by (simp add: swap_remove_def)

lemma nth_swap_remove:
  "j < length xs - 1 \<Longrightarrow> k < length xs \<Longrightarrow>
   swap_remove xs k ! j = (if j = k then xs ! (length xs - 1) else xs ! j)"
  by (simp add: swap_remove_def nth_butlast nth_list_update)

lemma set_swap_remove:
  assumes "distinct xs" "k < length xs"
  shows "set (swap_remove xs k) = set xs - {xs ! k}"
proof (intro set_eqI iffI)
  fix x assume "x \<in> set (swap_remove xs k)"
  then obtain j where j: "j < length xs - 1" "swap_remove xs k ! j = x"
    by (auto simp: in_set_conv_nth)
  show "x \<in> set xs - {xs ! k}"
  proof (cases "j = k")
    case True
    with j assms have "x = xs ! (length xs - 1)" by (simp add: nth_swap_remove)
    moreover have "xs ! (length xs - 1) \<noteq> xs ! k"
      using assms j True by (simp add: nth_eq_iff_index_eq)
    ultimately show ?thesis using assms by simp
  next
    case False
    with j assms have "x = xs ! j" by (simp add: nth_swap_remove)
    moreover have "xs ! j \<noteq> xs ! k"
      using assms j False by (simp add: nth_eq_iff_index_eq)
    ultimately show ?thesis using j by simp
  qed
next
  fix x assume "x \<in> set xs - {xs ! k}"
  then obtain j where j: "j < length xs" "xs ! j = x" "j \<noteq> k"
    by (auto simp: in_set_conv_nth)
  show "x \<in> set (swap_remove xs k)"
  proof (cases "j = length xs - 1")
    case True
    with j assms have "k < length xs - 1" by simp
    moreover from this assms True j have "swap_remove xs k ! k = x"
      by (simp add: nth_swap_remove)
    ultimately show ?thesis by (auto simp: in_set_conv_nth)
  next
    case False
    with j have "j < length xs - 1" by simp
    moreover from this assms j have "swap_remove xs k ! j = x"
      by (simp add: nth_swap_remove)
    ultimately show ?thesis by (auto simp: in_set_conv_nth)
  qed
qed

lemma distinct_swap_remove:
  assumes "distinct xs" "k < length xs"
  shows "distinct (swap_remove xs k)"
proof -
  have "card (set (swap_remove xs k)) = length (swap_remove xs k)"
    using assms by (simp add: set_swap_remove distinct_card)
  then show ?thesis by (rule card_distinct)
qed

subsection \<open>The active-stream index\<close>

lemma paid_Nil [simp]: "paid p i [] = 0"
  by (simp add: paid_def)

lemma paid_snoc [simp]:
  "paid p i (log @ [(q, j, a, v)]) = paid p i log + (if q = p \<and> j = i then v else 0)"
  by (simp add: paid_def)

lemma paid_fresh: "\<forall>x \<in> set log. fst (snd x) < n \<Longrightarrow> n \<le> i \<Longrightarrow> paid p i log = 0"
  by (induction log) (auto simp: paid_def)

lemma index_inv_position:
  assumes "index_inv s" "isActive (streams s i)"
  shows "activeStreamIndex s i < length (activeStreamIds s)"
    and "activeStreamIds s ! activeStreamIndex s i = i"
proof -
  from assms have "i \<in> set (activeStreamIds s)" by (simp add: index_inv_def)
  then obtain k where k: "k < length (activeStreamIds s)" "activeStreamIds s ! k = i"
    by (auto simp: in_set_conv_nth)
  with assms(1) have "activeStreamIndex s i = k" by (auto simp: index_inv_def)
  with k show "activeStreamIndex s i < length (activeStreamIds s)"
    and "activeStreamIds s ! activeStreamIndex s i = i" by simp_all
qed

lemma deactivateStream_active:
  assumes "index_inv s" "isActive (streams s i)"
  shows "deactivateStream i s = Inr (deactivated i s)"
proof -
  from assms have "i \<in> set (activeStreamIds s)" by (simp add: index_inv_def)
  then have ne: "length (activeStreamIds s) \<noteq> 0" by auto
  moreover from assms ne have "1 \<le> activeStreamCount s"
    by (cases "activeStreamIds s") (simp_all add: index_inv_def)
  moreover note index_inv_position(1)[OF assms]
  ultimately show ?thesis using assms(2)
    by (simp add: deactivateStream_def deactivated_def checked_sub_def swap_remove_def Let_def)
qed

lemma deactivateStream_inactive:
  "\<not> isActive (streams s i) \<Longrightarrow> deactivateStream i s = Inr s"
  by (simp add: deactivateStream_def)

lemma index_inv_deactivated:
  assumes inv: "index_inv s" and act: "isActive (streams s i)"
  shows "index_inv (deactivated i s)"
proof -
  let ?ids = "activeStreamIds s"
  let ?k = "activeStreamIndex s i"
  let ?l = "?ids ! (length ?ids - 1)"
  have d: "distinct ?ids" using inv by (simp add: index_inv_def)
  have k: "?k < length ?ids" "?ids ! ?k = i" using index_inv_position[OF inv act] by simp_all
  have set': "set (swap_remove ?ids ?k) = set ?ids - {i}"
    using set_swap_remove[OF d k(1)] k(2) by simp
  have "distinct (swap_remove ?ids ?k)" using d k(1) by (rule distinct_swap_remove)
  moreover have "\<forall>j. j \<in> set (swap_remove ?ids ?k) \<longleftrightarrow> isActive (streams (deactivated i s) j)"
    using inv set' by (auto simp: deactivated_def index_inv_def)
  moreover have "\<forall>j < length (swap_remove ?ids ?k).
      activeStreamIndex (deactivated i s) (swap_remove ?ids ?k ! j) = j"
  proof (intro allI impI)
    fix j assume j: "j < length (swap_remove ?ids ?k)"
    then have j': "j < length ?ids - 1" by simp
    have "swap_remove ?ids ?k ! j \<in> set (swap_remove ?ids ?k)" using j by simp
    then have ne: "swap_remove ?ids ?k ! j \<noteq> i" using set' by simp
    show "activeStreamIndex (deactivated i s) (swap_remove ?ids ?k ! j) = j"
    proof (cases "j = ?k")
      case True
      then show ?thesis using j' k(1) ne by (simp add: nth_swap_remove deactivated_def)
    next
      case False
      have "?ids ! j \<noteq> ?l" using d j' by (simp add: nth_eq_iff_index_eq)
      moreover have "activeStreamIndex s (?ids ! j) = j" using inv j' by (simp add: index_inv_def)
      ultimately show ?thesis using False j' k(1) ne
        by (simp add: nth_swap_remove deactivated_def)
    qed
  qed
  moreover have "activeStreamCount (deactivated i s) = length (swap_remove ?ids ?k)"
    using inv by (simp add: deactivated_def index_inv_def)
  ultimately show ?thesis by (simp add: index_inv_def deactivated_def)
qed

subsection \<open>Realizing one stream\<close>

lemma accrued_le_total:
  "acct_ok i st log \<Longrightarrow> accrued st \<le> totalAmount st"
proof -
  assume a: "acct_ok i st log"
  have "min (lastUpdateTime st) (stopTime st) - startTime st \<le> stopTime st - startTime st"
    by simp
  then have "accrued st \<le> flowRate st * (stopTime st - startTime st)"
    unfolding accrued_def by (rule mult_le_mono2)
  with a show ?thesis unfolding acct_ok_def by linarith
qed

lemma accrue_arith:
  fixes r :: nat
  assumes "start \<le> lut" "lut < stop" "lut < now"
  shows "r * (min lut stop - start) + r * (min now stop - lut) = r * (min now stop - start)"
proof -
  have "(min lut stop - start) + (min now stop - lut) = min now stop - start"
    using assms by (simp add: min_def)
  then show ?thesis by (metis distrib_left)
qed

lemma newAmount_bounds:
  assumes a: "acct_ok i st log" and l: "lastUpdateTime st < stopTime st"
    and n: "lastUpdateTime st < now"
  shows "realTimeBalance st + paid KeeperReward i log + newAmountAt now st =
           flowRate st * (min now (stopTime st) - startTime st)"
    and "flowRate st * (min now (stopTime st) - startTime st) \<le> totalAmount st"
    and "totalAmount st < uint256_bound"
proof -
  have s: "startTime st \<le> lastUpdateTime st" using a by (simp add: acct_ok_def)
  have "realTimeBalance st + paid KeeperReward i log = accrued st" using a by (simp add: acct_ok_def)
  then show "realTimeBalance st + paid KeeperReward i log + newAmountAt now st =
           flowRate st * (min now (stopTime st) - startTime st)"
    using accrue_arith[OF s l n, of "flowRate st"] by (simp add: accrued_def newAmountAt_def)
  have "min now (stopTime st) - startTime st \<le> stopTime st - startTime st" by simp
  then have "flowRate st * (min now (stopTime st) - startTime st)
      \<le> flowRate st * (stopTime st - startTime st)" by (rule mult_le_mono2)
  then show "flowRate st * (min now (stopTime st) - startTime st) \<le> totalAmount st"
    using a unfolding acct_ok_def by linarith
  show "totalAmount st < uint256_bound" using a by (simp add: acct_ok_def)
qed

lemma effective_elapsed:
  fixes now :: nat
  shows "lut < stop \<Longrightarrow> lut < now \<Longrightarrow>
    (if stop - lut < now - lut then stop - lut else now - lut) = min now stop - lut"
  by (auto simp: min_def)

lemma updateStreamBalance_noop:
  "\<not> isActive (streams s i) \<or> block_timestamp e \<le> lastUpdateTime (streams s i) \<Longrightarrow>
   updateStreamBalance e i s = Inr (False, s)"
  by (auto simp: updateStreamBalance_def Let_def)

lemma updateStreamBalance_active:
  assumes inv: "ledger_inv s" and act: "isActive (streams s i)"
    and n: "lastUpdateTime (streams s i) < block_timestamp e"
  shows "updateStreamBalance e i s =
     (if 0 < newAmountAt (block_timestamp e) (streams s i) div 1000 \<and>
         \<not> (accepts e (msg_sender e) \<and>
            newAmountAt (block_timestamp e) (streams s i) div 1000 \<le> balance s)
      then Inl (Revert ''StreamPay: Keeper reward failed'')
      else Inr (True, if stopTime (streams s i) \<le> block_timestamp e
                      then deactivated i (realized e i s) else realized e i s))"
proof -
  let ?st = "streams s i"
  let ?now = "block_timestamp e"
  let ?n = "newAmountAt ?now ?st"
  have a: "acct_ok i ?st (sent s)" using inv by (simp add: ledger_inv_def accounts_inv_def)
  have l: "lastUpdateTime ?st < stopTime ?st" using inv act by (simp add: ledger_inv_def live_inv_def)
  note b = newAmount_bounds[OF a l n]
  have nb: "?n < uint256_bound" and rb: "realTimeBalance ?st + ?n < uint256_bound"
    using b by linarith+
  have eff: "(if stopTime ?st - lastUpdateTime ?st < ?now - lastUpdateTime ?st
              then stopTime ?st - lastUpdateTime ?st else ?now - lastUpdateTime ?st) * flowRate ?st = ?n"
    using effective_elapsed[OF l n] by (simp add: newAmountAt_def mult.commute)
  have idx: "index_inv (realized e i s)" "isActive (streams (realized e i s) i)"
    using inv act by (auto simp: ledger_inv_def index_inv_def realized_def Let_def)
  have rb': "realTimeBalance ?st + (?n - ?n div 1000) < uint256_bound"
    using rb by linarith
  have lt: "0 < ?n div 1000 \<Longrightarrow> ?n div 1000 < ?n" by simp
  show ?thesis
  proof (cases "0 < ?n div 1000")
    case True
    show ?thesis
    proof (cases "accepts e (msg_sender e) \<and> ?n div 1000 \<le> balance s")
      case ok: True
      have "deactivateStream i (realized e i s) = Inr (deactivated i (realized e i s))"
        using idx by (rule deactivateStream_active)
      then show ?thesis using True ok act n l nb rb' lt eff
        by (simp add: updateStreamBalance_def Let_def checked_mul_def checked_add_def send_def pay_def
            setStream_def realized_def)
    next
      case False
      then show ?thesis using True act n l nb rb' lt eff
        by (auto simp add: updateStreamBalance_def Let_def checked_mul_def checked_add_def send_def pay_def
            setStream_def)
    qed
  next
    case False
    have "deactivateStream i (realized e i s) = Inr (deactivated i (realized e i s))"
      using idx by (rule deactivateStream_active)
    then show ?thesis using False act n l nb rb eff
      by (simp add: updateStreamBalance_def Let_def checked_mul_def checked_add_def 
          setStream_def realized_def)
  qed
qed

lemma acct_ok_inactive: "acct_ok i st log \<Longrightarrow> acct_ok i (st\<lparr>isActive := False\<rparr>) log"
  by (simp add: acct_ok_def accrued_def)

lemma ledger_inv_deactivated:
  assumes "index_inv s" "accounts_inv s" "log_inv s" "isActive (streams s i)"
    and "\<forall>j. j \<noteq> i \<longrightarrow> isActive (streams s j) \<longrightarrow>
           lastUpdateTime (streams s j) < stopTime (streams s j) \<and> j < nextStreamId s"
  shows "ledger_inv (deactivated i s)"
proof -
  have "index_inv (deactivated i s)" using assms(1,4) by (rule index_inv_deactivated)
  moreover have "accounts_inv (deactivated i s)"
    using assms(2) by (simp add: accounts_inv_def deactivated_def acct_ok_inactive)
  moreover have "live_inv (deactivated i s)"
    using assms(5) by (simp add: live_inv_def deactivated_def)
  moreover have "log_inv (deactivated i s)"
    using assms(3) by (simp add: log_inv_def deactivated_def)
  ultimately show ?thesis by (simp add: ledger_inv_def)
qed

lemma acct_ok_realized_aux:
  assumes a: "acct_ok i st log" and l: "lastUpdateTime st < stopTime st"
    and n: "lastUpdateTime st < now"
    and fee: "1000 * fee \<le> newAmountAt now st"
  shows "acct_ok i (st\<lparr>realTimeBalance := realTimeBalance st + (newAmountAt now st - fee),
                       lastUpdateTime := now\<rparr>)
           (log @ [(KeeperReward, i, a, fee)])"
proof -
  define m where "m = newAmountAt now st"
  note b = newAmount_bounds(1)[OF a l n, folded m_def]
  have f: "fee \<le> m" "1000 * fee \<le> m" using fee by (simp_all add: m_def)
  have old: "realTimeBalance st + paid KeeperReward i log = accrued st"
    "1000 * paid KeeperReward i log \<le> accrued st"
    "amountWithdrawn st \<le> realTimeBalance st" "startTime st \<le> lastUpdateTime st"
    using a by (simp_all add: acct_ok_def)
  have 1: "amountWithdrawn st \<le> realTimeBalance st + (m - fee)" using old by simp
  have 2: "startTime st \<le> now" using old n by simp
  have 3: "realTimeBalance st + (m - fee) + (paid KeeperReward i log + fee) =
     flowRate st * (min now (stopTime st) - startTime st)" using b f by simp
  have 4: "1000 * paid KeeperReward i log + 1000 * fee \<le>
     flowRate st * (min now (stopTime st) - startTime st)"
  proof -
    define A where "A = flowRate st * (min now (stopTime st) - startTime st)"
    have "realTimeBalance st + paid KeeperReward i log + m = A" using b by (simp add: A_def)
    then have "1000 * paid KeeperReward i log + 1000 * fee \<le> A" using f old by linarith
    then show ?thesis by (simp add: A_def)
  qed
  show ?thesis
    using a 1 2 3 4 unfolding acct_ok_def accrued_def m_def[symmetric] by simp
qed

lemma acct_ok_realized:
  assumes a: "acct_ok i st log" and l: "lastUpdateTime st < stopTime st"
    and n: "lastUpdateTime st < now"
  shows "acct_ok i (st\<lparr>realTimeBalance := realTimeBalance st +
                           (newAmountAt now st - newAmountAt now st div 1000),
                         lastUpdateTime := now\<rparr>)
             (log @ [(KeeperReward, i, a, newAmountAt now st div 1000)])"
    and "acct_ok i (st\<lparr>realTimeBalance := realTimeBalance st + newAmountAt now st,
                       lastUpdateTime := now\<rparr>) log"
proof -
  show "acct_ok i (st\<lparr>realTimeBalance := realTimeBalance st +
                           (newAmountAt now st - newAmountAt now st div 1000),
                         lastUpdateTime := now\<rparr>)
             (log @ [(KeeperReward, i, a, newAmountAt now st div 1000)])"
    using a l n by (rule acct_ok_realized_aux) simp
  have "acct_ok i (st\<lparr>realTimeBalance := realTimeBalance st + (newAmountAt now st - 0),
                       lastUpdateTime := now\<rparr>) (log @ [(KeeperReward, i, a, 0)])"
    using a l n by (rule acct_ok_realized_aux) simp
  then show "acct_ok i (st\<lparr>realTimeBalance := realTimeBalance st + newAmountAt now st,
                       lastUpdateTime := now\<rparr>) log"
    by (simp add: acct_ok_def)
qed

lemma acct_ok_other:
  "j \<noteq> i \<Longrightarrow> acct_ok j st (log @ [(p, i, a, v)]) = acct_ok j st log"
  by (simp add: acct_ok_def)

lemma realized_invs:
  assumes inv: "ledger_inv s" and act: "isActive (streams s i)"
    and n: "lastUpdateTime (streams s i) < block_timestamp e"
  shows "index_inv (realized e i s)" and "accounts_inv (realized e i s)"
    and "log_inv (realized e i s)"
    and "isActive (streams (realized e i s) i)"
    and "\<forall>j. j \<noteq> i \<longrightarrow> isActive (streams (realized e i s) j) \<longrightarrow>
           lastUpdateTime (streams (realized e i s) j) < stopTime (streams (realized e i s) j)
           \<and> j < nextStreamId (realized e i s)"
    and "i < nextStreamId (realized e i s)"
    and "lastUpdateTime (streams (realized e i s) i) = block_timestamp e"
    and "stopTime (streams (realized e i s) i) = stopTime (streams s i)"
proof -
  have a: "\<And>j. acct_ok j (streams s j) (sent s)"
    using inv by (simp add: ledger_inv_def accounts_inv_def)
  have l: "lastUpdateTime (streams s i) < stopTime (streams s i)" and lt: "i < nextStreamId s"
    using inv act by (simp_all add: ledger_inv_def live_inv_def)
  show "index_inv (realized e i s)" "isActive (streams (realized e i s) i)"
    using inv act by (auto simp: ledger_inv_def index_inv_def realized_def Let_def)
  show "accounts_inv (realized e i s)"
    unfolding accounts_inv_def
  proof
    fix j
    show "acct_ok j (streams (realized e i s) j) (sent (realized e i s))"
      using a[of j] acct_ok_realized[OF a[of i] l n]
      by (cases "j = i") (simp_all add: realized_def Let_def acct_ok_other)
  qed
  show "log_inv (realized e i s)"
    using inv lt by (simp add: ledger_inv_def log_inv_def realized_def Let_def)
  show "\<forall>j. j \<noteq> i \<longrightarrow> isActive (streams (realized e i s) j) \<longrightarrow>
           lastUpdateTime (streams (realized e i s) j) < stopTime (streams (realized e i s) j)
           \<and> j < nextStreamId (realized e i s)"
    using inv by (simp add: ledger_inv_def live_inv_def realized_def Let_def)
  show "i < nextStreamId (realized e i s)" using lt by (simp add: realized_def Let_def)
  show "lastUpdateTime (streams (realized e i s) i) = block_timestamp e"
    "stopTime (streams (realized e i s) i) = stopTime (streams s i)"
    by (simp_all add: realized_def Let_def)
qed

lemma ledger_inv_realized:
  assumes inv: "ledger_inv s" and act: "isActive (streams s i)"
    and n: "lastUpdateTime (streams s i) < block_timestamp e"
  shows "ledger_inv (if stopTime (streams s i) \<le> block_timestamp e
                     then deactivated i (realized e i s) else realized e i s)"
proof (cases "stopTime (streams s i) \<le> block_timestamp e")
  case True
  note r = realized_invs[OF inv act n]
  have "ledger_inv (deactivated i (realized e i s))"
    using r(1,2,3,4,5) by (rule ledger_inv_deactivated)
  with True show ?thesis by simp
next
  case False
  note r = realized_invs[OF inv act n]
  have "live_inv (realized e i s)"
    unfolding live_inv_def
  proof (intro allI impI)
    fix j assume "isActive (streams (realized e i s) j)"
    then show "lastUpdateTime (streams (realized e i s) j) < stopTime (streams (realized e i s) j)
        \<and> j < nextStreamId (realized e i s)"
      using r(5,6,7,8) False by (cases "j = i") auto
  qed
  with r(1,2,3) False show ?thesis by (simp add: ledger_inv_def)
qed

lemma ledger_inv_updateStreamBalance:
  assumes "ledger_inv s" "updateStreamBalance e i s = Inr (b, s')"
  shows "ledger_inv s'"
proof (cases "isActive (streams s i) \<and> lastUpdateTime (streams s i) < block_timestamp e")
  case True
  then show ?thesis
    using assms updateStreamBalance_active[of s i e] ledger_inv_realized[of s i e]
    by (auto split: if_splits)
next
  case False
  then have "updateStreamBalance e i s = Inr (False, s)"
    by (intro updateStreamBalance_noop) auto
  with assms show ?thesis by simp
qed

subsection \<open>Creation preserves the invariant\<close>

lemmas inv_defs = ledger_inv_def index_inv_def accounts_inv_def live_inv_def log_inv_def

lemma ledger_inv_balance [simp]: "ledger_inv (s\<lparr>balance := b\<rparr>) = ledger_inv s"
  by (simp add: inv_defs)

lemma ledger_inv_entered [simp]: "ledger_inv (s\<lparr>entered := b\<rparr>) = ledger_inv s"
  by (simp add: inv_defs)

lemma ledger_inv_paused [simp]: "ledger_inv (s\<lparr>paused := b\<rparr>) = ledger_inv s"
  by (simp add: inv_defs)

lemma ledger_inv_keeper [simp]: "ledger_inv (s\<lparr>keeper := a\<rparr>) = ledger_inv s"
  by (simp add: inv_defs)

lemma ledger_inv_owner [simp]: "ledger_inv (s\<lparr>owner := a\<rparr>) = ledger_inv s"
  by (simp add: inv_defs)

lemma ledger_inv_counters [simp]:
  "ledger_inv (s\<lparr>totalUpdatesPerformed := n, lastBatchUpdateTime := t\<rparr>) = ledger_inv s"
  by (simp add: inv_defs)

lemma uint256_bound_pos [simp]: "0 < uint256_bound"
  by (simp add: uint256_bound_def)

lemma ledger_inv_constructor: "ledger_inv (constructor a)"
  by (simp add: inv_defs constructor_def empty_stream_def acct_ok_def accrued_def)

lemma createStreamInternal_eq_Inr:
  "createStreamInternal now a b amount duration t d s = Inr (i, s') \<longleftrightarrow>
     duration \<le> amount \<and> 0 < duration \<and>
     nextStreamId s + 1 < uint256_bound \<and> now + duration < uint256_bound \<and>
     totalStreamsCreated s + 1 < uint256_bound \<and> activeStreamCount s + 1 < uint256_bound \<and>
     totalVolumeStreamed s + amount < uint256_bound \<and>
     i = nextStreamId s \<and> s' = created now a b amount duration t d s"
proof (cases "duration = 0")
  case True
  then show ?thesis by (simp add: createStreamInternal_def)
next
  case False
  then have r: "0 < amount div duration \<longleftrightarrow> duration \<le> amount"
    by (simp add: div_greater_zero_iff)
  show ?thesis using False r
    by (auto simp: createStreamInternal_def Let_def checked_add_def checked_sub_def created_def)
qed

lemma ledger_inv_created:
  assumes inv: "ledger_inv s" and d: "0 < duration" and a: "amount < uint256_bound"
  shows "ledger_inv (created now a b amount duration t desc s)"
proof -
  let ?n = "nextStreamId s"
  let ?s' = "created now a b amount duration t desc s"
  have fresh: "\<not> isActive (streams s ?n)" "?n \<notin> set (activeStreamIds s)"
    using inv by (auto simp: inv_defs)
  have paid0: "\<And>p. paid p ?n (sent s) = 0"
    using inv by (intro paid_fresh[of _ ?n]) (auto simp: inv_defs)
  have "index_inv ?s'"
    unfolding index_inv_def
  proof (intro conjI allI impI)
    show "distinct (activeStreamIds ?s')" using inv fresh by (simp add: created_def inv_defs)
    show "\<And>i. i \<in> set (activeStreamIds ?s') \<longleftrightarrow> isActive (streams ?s' i)"
      using inv by (auto simp: created_def inv_defs)
    show "activeStreamCount ?s' = length (activeStreamIds ?s')"
      using inv by (simp add: created_def inv_defs)
    fix k assume "k < length (activeStreamIds ?s')"
    then have k: "k < length (activeStreamIds s) \<or> k = length (activeStreamIds s)"
      by (auto simp: created_def)
    then show "activeStreamIndex ?s' (activeStreamIds ?s' ! k) = k"
    proof
      assume kl: "k < length (activeStreamIds s)"
      then have "activeStreamIds s ! k \<noteq> ?n" using fresh(2) by (metis nth_mem)
      moreover have "activeStreamIndex s (activeStreamIds s ! k) = k"
        using inv kl by (simp add: inv_defs)
      ultimately show ?thesis using kl by (simp add: created_def nth_append)
    next
      assume "k = length (activeStreamIds s)"
      then show ?thesis by (simp add: created_def)
    qed
  qed
  moreover have "accounts_inv ?s'"
    unfolding accounts_inv_def
  proof
    fix i
    have "amount div duration * duration \<le> amount" by simp
    then have "amount div duration * (now + duration - now) \<le> amount" by simp
    then show "acct_ok i (streams ?s' i) (sent ?s')"
      using inv paid0 a
      by (cases "i = ?n")
         (simp_all add: created_def accounts_inv_def ledger_inv_def acct_ok_def accrued_def
            del: div_mult_self1_is_m div_mult_self_is_m)
  qed
  moreover have "live_inv ?s'"
    using inv d by (auto simp: created_def inv_defs)
  moreover have "log_inv ?s'"
    using inv by (auto simp: created_def inv_defs)
  ultimately show ?thesis by (simp add: ledger_inv_def)
qed

lemma ledger_inv_createStreamInternal:
  assumes "ledger_inv s" "createStreamInternal now a b amount duration t d s = Inr (i, s')"
  shows "ledger_inv s'"
proof -
  from assms(2) have "0 < duration" "amount < uint256_bound"
    "s' = created now a b amount duration t d s"
    by (simp_all add: createStreamInternal_eq_Inr)
  with assms(1) show ?thesis by (simp add: ledger_inv_created)
qed

lemma ledger_inv_createStream_body:
  assumes "ledger_inv s" "createStream_body e v b duration t d s = Inr (i, s')"
  shows "ledger_inv s'"
proof -
  from assms(2) have "createStreamInternal (block_timestamp e) (msg_sender e) b v duration t d
      (s\<lparr>balance := balance s + v\<rparr>) = Inr (i, s')"
    by (simp add: createStream_body_def split: if_splits)
  then show ?thesis using assms(1) ledger_inv_createStreamInternal[of "s\<lparr>balance := balance s + v\<rparr>"]
    by simp
qed

lemma ledger_inv_createGroupLoop:
  "ledger_inv s \<Longrightarrow> createGroupLoop e rs amt duration t d s = Inr s' \<Longrightarrow> ledger_inv s'"
proof (induction rs arbitrary: s)
  case Nil
  then show ?case by simp
next
  case (Cons r rs)
  from Cons.prems(2) obtain i s1 where
    c: "createStreamInternal (block_timestamp e) (msg_sender e) r amt duration t d s = Inr (i, s1)"
    and l: "createGroupLoop e rs amt duration t d s1 = Inr s'"
    by (auto simp: bindE_eq_Inr split: if_splits)
  from Cons.prems(1) c have "ledger_inv s1" by (rule ledger_inv_createStreamInternal)
  then show ?case using l by (rule Cons.IH)
qed

lemma ledger_inv_createGroupStream_body:
  assumes "ledger_inv s" "createGroupStream_body e v rs duration t d s = Inr s'"
  shows "ledger_inv s'"
proof -
  from assms(2) have "createGroupLoop e rs (v div length rs) duration t d
      (s\<lparr>balance := balance s + v\<rparr>) = Inr s'"
    by (simp add: createGroupStream_body_def Let_def split: if_splits)
  then show ?thesis
    using assms(1) ledger_inv_createGroupLoop[of "s\<lparr>balance := balance s + v\<rparr>"] by simp
qed

subsection \<open>Settlement, withdrawal and cancellation preserve the invariant\<close>

lemma updateStreamBalance_cases:
  assumes "ledger_inv s" "updateStreamBalance e i s = Inr (b, s')"
  shows "(\<not> b \<and> s' = s \<and>
            (\<not> isActive (streams s i) \<or> block_timestamp e \<le> lastUpdateTime (streams s i)))
       \<or> (b \<and> isActive (streams s i) \<and> lastUpdateTime (streams s i) < block_timestamp e \<and>
            s' = (if stopTime (streams s i) \<le> block_timestamp e
                  then deactivated i (realized e i s) else realized e i s))"
proof (cases "isActive (streams s i) \<and> lastUpdateTime (streams s i) < block_timestamp e")
  case True
  then show ?thesis
    using assms updateStreamBalance_active[of s i e] by (auto split: if_splits)
next
  case False
  then have "updateStreamBalance e i s = Inr (False, s)"
    by (intro updateStreamBalance_noop) auto
  with assms False show ?thesis by auto
qed

lemma realized_frame [simp]:
  "nextStreamId (realized e i s) = nextStreamId s"
  "paused (realized e i s) = paused s"
  "owner (realized e i s) = owner s"
  "activeStreamIds (realized e i s) = activeStreamIds s"
  "totalUpdatesPerformed (realized e i s) = totalUpdatesPerformed s"
  "lastBatchUpdateTime (realized e i s) = lastBatchUpdateTime s"
  "j \<noteq> i \<Longrightarrow> streams (realized e i s) j = streams s j"
  "isActive (streams (realized e i s) j) = isActive (streams s j)"
  "sender (streams (realized e i s) j) = sender (streams s j)"
  "recipient (streams (realized e i s) j) = recipient (streams s j)"
  "totalAmount (streams (realized e i s) j) = totalAmount (streams s j)"
  "flowRate (streams (realized e i s) j) = flowRate (streams s j)"
  "startTime (streams (realized e i s) j) = startTime (streams s j)"
  "stopTime (streams (realized e i s) j) = stopTime (streams s j)"
  "amountWithdrawn (streams (realized e i s) j) = amountWithdrawn (streams s j)"
  by (simp_all add: realized_def Let_def)

lemma deactivated_frame [simp]:
  "nextStreamId (deactivated i s) = nextStreamId s"
  "paused (deactivated i s) = paused s"
  "owner (deactivated i s) = owner s"
  "balance (deactivated i s) = balance s"
  "sent (deactivated i s) = sent s"
  "totalUpdatesPerformed (deactivated i s) = totalUpdatesPerformed s"
  "lastBatchUpdateTime (deactivated i s) = lastBatchUpdateTime s"
  "j \<noteq> i \<Longrightarrow> streams (deactivated i s) j = streams s j"
  "isActive (streams (deactivated i s) j) = (j \<noteq> i \<and> isActive (streams s j))"
  "sender (streams (deactivated i s) j) = sender (streams s j)"
  "recipient (streams (deactivated i s) j) = recipient (streams s j)"
  "totalAmount (streams (deactivated i s) j) = totalAmount (streams s j)"
  "flowRate (streams (deactivated i s) j) = flowRate (streams s j)"
  "startTime (streams (deactivated i s) j) = startTime (streams s j)"
  "stopTime (streams (deactivated i s) j) = stopTime (streams s j)"
  "lastUpdateTime (streams (deactivated i s) j) = lastUpdateTime (streams s j)"
  "amountWithdrawn (streams (deactivated i s) j) = amountWithdrawn (streams s j)"
  "realTimeBalance (streams (deactivated i s) j) = realTimeBalance (streams s j)"
  by (simp_all add: deactivated_def)

lemma updateStreamBalance_frame:
  assumes "ledger_inv s" "updateStreamBalance e i s = Inr (b, s')"
  shows "nextStreamId s' = nextStreamId s" "paused s' = paused s" "owner s' = owner s"
    "sender (streams s' j) = sender (streams s j)"
    "recipient (streams s' j) = recipient (streams s j)"
    "totalAmount (streams s' j) = totalAmount (streams s j)"
    "amountWithdrawn (streams s' j) = amountWithdrawn (streams s j)"
    "isActive (streams s' j) \<Longrightarrow> isActive (streams s j)"
    "j \<noteq> i \<Longrightarrow> streams s' j = streams s j"
  using updateStreamBalance_cases[OF assms] by (auto split: if_splits)

lemma ledger_inv_updateLoop:
  "ledger_inv s \<Longrightarrow> updateLoop e ids c s = Inr (c', s') \<Longrightarrow> ledger_inv s'"
proof (induction ids arbitrary: s c)
  case Nil
  then show ?case by simp
next
  case (Cons i ids)
  from Cons.prems(2) obtain b s1 c1 where
    u: "updateStreamBalance e i s = Inr (b, s1)" and l: "updateLoop e ids c1 s1 = Inr (c', s')"
    by (auto simp: bindE_eq_Inr split: if_splits)
  from Cons.prems(1) u have "ledger_inv s1" by (rule ledger_inv_updateStreamBalance)
  then show ?case using l by (rule Cons.IH)
qed

lemma ledger_inv_batchUpdateStreams_body:
  assumes "ledger_inv s" "batchUpdateStreams_body e ids s = Inr s'"
  shows "ledger_inv s'"
proof -
  from assms(2) obtain c s1 where l: "updateLoop e ids 0 s = Inr (c, s1)"
    and s': "s' = s1\<lparr>totalUpdatesPerformed := totalUpdatesPerformed s1 + c,
                      lastBatchUpdateTime := block_timestamp e\<rparr>"
    by (auto simp: batchUpdateStreams_body_def bindE_eq_Inr checked_add_eq_Inr split: if_splits)
  from assms(1) l have "ledger_inv s1" by (rule ledger_inv_updateLoop)
  then show ?thesis by (simp add: s')
qed

lemma acct_ok_payout:
  "p \<noteq> KeeperReward \<Longrightarrow> p \<noteq> Withdrawal \<Longrightarrow> \<not> isActive st \<or> p = Emergency \<Longrightarrow>
   acct_ok j st (log @ [(p, i, a, v)]) = acct_ok j st log"
  by (auto simp: acct_ok_def)

lemma pay_eq_Inr:
  "pay e p i a v msg s = Inr s' \<longleftrightarrow>
     accepts e a \<and> v \<le> balance s \<and>
     s' = s\<lparr>balance := balance s - v, sent := sent s @ [(p, i, a, v)]\<rparr>"
  by (auto simp: pay_def send_def)

lemma ledger_inv_payout:
  assumes "ledger_inv s" "p = RecipientPayout \<or> p = SenderRefund" "\<not> isActive (streams s i)"
    "i < nextStreamId s"
  shows "ledger_inv (s\<lparr>balance := b, sent := sent s @ [(p, i, a, v)]\<rparr>)"
proof -
  have "\<And>j. acct_ok j (streams s j) (sent s @ [(p, i, a, v)]) = acct_ok j (streams s j) (sent s)"
    using assms(2,3) by (case_tac "j = i") (auto simp: acct_ok_payout acct_ok_other)
  then show ?thesis using assms(1,4) by (simp add: inv_defs)
qed

lemma withdrawFromStream_body_eq_Inr:
  "withdrawFromStream_body e i s = Inr s' \<longleftrightarrow>
     \<not> paused s \<and> isActive (streams s i) \<and> msg_sender e = recipient (streams s i) \<and>
     (\<exists>b s1. updateStreamBalance e i s = Inr (b, s1) \<and>
        amountWithdrawn (streams s1 i) < realTimeBalance (streams s1 i) \<and>
        realTimeBalance (streams s1 i) < uint256_bound \<and>
        accepts e (recipient (streams s1 i)) \<and>
        realTimeBalance (streams s1 i) - amountWithdrawn (streams s1 i) \<le> balance s1 \<and>
        s' = s1\<lparr>streams := (streams s1)(i := (streams s1 i)
                   \<lparr>amountWithdrawn := realTimeBalance (streams s1 i)\<rparr>),
                 balance := balance s1 -
                   (realTimeBalance (streams s1 i) - amountWithdrawn (streams s1 i)),
                 sent := sent s1 @ [(Withdrawal, i, recipient (streams s1 i),
                   realTimeBalance (streams s1 i) - amountWithdrawn (streams s1 i))]\<rparr>)"
proof (cases "\<not> paused s \<and> isActive (streams s i) \<and> msg_sender e = recipient (streams s i)")
  case False
  then show ?thesis by (auto simp: withdrawFromStream_body_def)
next
  case True
  show ?thesis
  proof (cases "updateStreamBalance e i s")
    case (Inl err)
    with True show ?thesis by (simp add: withdrawFromStream_body_def)
  next
    case (Inr r)
    obtain b s1 where r: "r = (b, s1)" by (cases r)
    show ?thesis
    proof (cases "amountWithdrawn (streams s1 i) < realTimeBalance (streams s1 i)")
      case lt: True
      then have "amountWithdrawn (streams s1 i) +
          (realTimeBalance (streams s1 i) - amountWithdrawn (streams s1 i)) =
          realTimeBalance (streams s1 i)" by simp
      then show ?thesis using True Inr r lt
        by (auto simp: withdrawFromStream_body_def Let_def checked_sub_def checked_add_def
            pay_eq_Inr setStream_def)
    next
      case False
      then show ?thesis using True Inr r
        by (auto simp: withdrawFromStream_body_def Let_def checked_sub_def)
    qed
  qed
qed

lemma ledger_inv_withdrawFromStream_body:
  assumes inv: "ledger_inv s" and w: "withdrawFromStream_body e i s = Inr s'"
  shows "ledger_inv s'"
proof -
  from w obtain b s1 where act: "isActive (streams s i)"
    and u: "updateStreamBalance e i s = Inr (b, s1)"
    and le: "amountWithdrawn (streams s1 i) < realTimeBalance (streams s1 i)"
    and s': "s' = s1\<lparr>streams := (streams s1)(i := (streams s1 i)
                   \<lparr>amountWithdrawn := realTimeBalance (streams s1 i)\<rparr>),
                 balance := balance s1 -
                   (realTimeBalance (streams s1 i) - amountWithdrawn (streams s1 i)),
                 sent := sent s1 @ [(Withdrawal, i, recipient (streams s1 i),
                   realTimeBalance (streams s1 i) - amountWithdrawn (streams s1 i))]\<rparr>"
    unfolding withdrawFromStream_body_eq_Inr by blast
  have inv1: "ledger_inv s1" using inv u by (rule ledger_inv_updateStreamBalance)
  have lt: "i < nextStreamId s1"
    using inv act updateStreamBalance_frame(1)[OF inv u] by (simp add: inv_defs)
  have "accounts_inv s'"
    unfolding accounts_inv_def
  proof
    fix j
    have "acct_ok j (streams s1 j) (sent s1)" using inv1 by (simp add: inv_defs)
    then show "acct_ok j (streams s' j) (sent s')"
      using le by (cases "j = i") (auto simp: s' acct_ok_def accrued_def)
  qed
  moreover have "index_inv s'" "live_inv s'" "log_inv s'"
    using inv1 lt by (auto simp: s' inv_defs)
  ultimately show ?thesis by (simp add: ledger_inv_def)
qed

lemma cancelAmounts_eq:
  "amountWithdrawn st \<le> realTimeBalance st \<Longrightarrow> realTimeBalance st < uint256_bound \<Longrightarrow>
   cancelAmounts st = Inr (realTimeBalance st - amountWithdrawn st,
     if totalAmount st > realTimeBalance st then totalAmount st - realTimeBalance st else 0)"
  by (simp add: cancelAmounts_def checked_sub_def checked_add_def)

lemma cancelAmounts_eq_Inr:
  "cancelAmounts st = Inr r \<longleftrightarrow>
     amountWithdrawn st \<le> realTimeBalance st \<and> realTimeBalance st < uint256_bound \<and>
     r = (realTimeBalance st - amountWithdrawn st,
          if totalAmount st > realTimeBalance st then totalAmount st - realTimeBalance st else 0)"
  by (auto simp: cancelAmounts_def checked_sub_def checked_add_def)

lemma cancelStream_body_eq_Inr:
  "cancelStream_body e i s = Inr s' \<longleftrightarrow>
     \<not> paused s \<and> isActive (streams s i) \<and>
     (msg_sender e = sender (streams s i) \<or> msg_sender e = recipient (streams s i)) \<and>
     (\<exists>b s1 s2. updateStreamBalance e i s = Inr (b, s1) \<and>
        amountWithdrawn (streams s1 i) \<le> realTimeBalance (streams s1 i) \<and>
        realTimeBalance (streams s1 i) < uint256_bound \<and>
        deactivateStream i s1 = Inr s2 \<and>
        payouts e i (streams s1 i) s2 = Inr s')"
proof (cases "\<not> paused s \<and> isActive (streams s i) \<and>
     (msg_sender e = sender (streams s i) \<or> msg_sender e = recipient (streams s i))")
  case False
  then show ?thesis by (auto simp: cancelStream_body_def)
next
  case True
  show ?thesis
  proof (cases "updateStreamBalance e i s")
    case (Inl err)
    with True show ?thesis by (simp add: cancelStream_body_def)
  next
    case (Inr r)
    obtain b s1 where r: "r = (b, s1)" by (cases r)
    show ?thesis
    proof (cases "amountWithdrawn (streams s1 i) \<le> realTimeBalance (streams s1 i)
                  \<and> realTimeBalance (streams s1 i) < uint256_bound")
      case ok: True
      show ?thesis
      proof (cases "deactivateStream i s1")
        case (Inl err)
        then show ?thesis using True Inr r ok
          by (simp add: cancelStream_body_def Let_def cancelAmounts_eq)
      next
        case d: (Inr s2)
        show ?thesis using True Inr r ok d
          by (simp add: cancelStream_body_def Let_def cancelAmounts_eq payouts_def)
      qed
    next
      case False
      then have "\<exists>err. cancelAmounts (streams s1 i) = Inl err"
        by (cases "cancelAmounts (streams s1 i)") (auto simp: cancelAmounts_eq_Inr)
      then show ?thesis using True Inr r False
        by (auto simp: cancelStream_body_def Let_def)
    qed
  qed
qed

lemma payouts_cases:
  assumes "payouts e i st s2 = Inr s'"
  obtains s3 where
    "s3 = s2 \<or> (\<exists>a v b. s3 = s2\<lparr>balance := b,
                                sent := sent s2 @ [(RecipientPayout, i, a, v)]\<rparr>)"
    "s' = s3 \<or> (\<exists>a v b. s' = s3\<lparr>balance := b,
                                sent := sent s3 @ [(SenderRefund, i, a, v)]\<rparr>)"
proof -
  from assms obtain s3 where
    1: "(if realTimeBalance st - amountWithdrawn st > 0
        then pay e RecipientPayout i (recipient st) (realTimeBalance st - amountWithdrawn st)
               ''StreamPay: Recipient transfer failed'' s2
        else Inr s2) = Inr s3"
    and 2: "(if (if totalAmount st > realTimeBalance st
              then totalAmount st - realTimeBalance st else 0) > 0
          then pay e SenderRefund i (sender st)
                 (if totalAmount st > realTimeBalance st
                  then totalAmount st - realTimeBalance st else 0)
                 ''StreamPay: Sender refund failed'' s3
          else Inr s3) = Inr s'"
    unfolding payouts_def bindE_eq_Inr by blast
  from 1 have "s3 = s2 \<or> (\<exists>a v b. s3 = s2\<lparr>balance := b,
                                sent := sent s2 @ [(RecipientPayout, i, a, v)]\<rparr>)"
    by (cases "realTimeBalance st - amountWithdrawn st > 0") (auto simp: pay_eq_Inr)
  moreover from 2 have "s' = s3 \<or> (\<exists>a v b. s' = s3\<lparr>balance := b,
                                sent := sent s3 @ [(SenderRefund, i, a, v)]\<rparr>)"
    by (cases "totalAmount st > realTimeBalance st") (auto simp: pay_eq_Inr)
  ultimately show thesis by (rule that)
qed

lemma ledger_inv_cancelStream_body:
  assumes inv: "ledger_inv s" and c: "cancelStream_body e i s = Inr s'"
  shows "ledger_inv s'"
proof -
  from c obtain b s1 s2 where act: "isActive (streams s i)"
    and u: "updateStreamBalance e i s = Inr (b, s1)"
    and d: "deactivateStream i s1 = Inr s2"
    and po: "payouts e i (streams s1 i) s2 = Inr s'"
    unfolding cancelStream_body_eq_Inr by blast
  from po obtain s3 where
    p: "s3 = s2 \<or> (\<exists>a v b. s3 = s2\<lparr>balance := b,
                                      sent := sent s2 @ [(RecipientPayout, i, a, v)]\<rparr>)"
    and r: "s' = s3 \<or> (\<exists>a v b. s' = s3\<lparr>balance := b,
                                      sent := sent s3 @ [(SenderRefund, i, a, v)]\<rparr>)"
    by (rule payouts_cases)
  have inv1: "ledger_inv s1" using inv u by (rule ledger_inv_updateStreamBalance)
  have lt: "i < nextStreamId s1"
    using inv act updateStreamBalance_frame(1)[OF inv u] by (simp add: inv_defs)
  have s2: "ledger_inv s2 \<and> \<not> isActive (streams s2 i) \<and> nextStreamId s2 = nextStreamId s1"
  proof (cases "isActive (streams s1 i)")
    case True
    then have "s2 = deactivated i s1"
      using d inv1 deactivateStream_active[of s1 i] by (simp add: ledger_inv_def)
    moreover have "ledger_inv (deactivated i s1)"
      using inv1 True by (intro ledger_inv_deactivated) (auto simp: inv_defs)
    ultimately show ?thesis by simp
  next
    case False
    then show ?thesis using d inv1 by (simp add: deactivateStream_inactive)
  qed
  have s3: "ledger_inv s3 \<and> \<not> isActive (streams s3 i) \<and> nextStreamId s3 = nextStreamId s1"
    using p s2 lt by (auto intro!: ledger_inv_payout)
  show ?thesis using r s3 lt by (auto intro!: ledger_inv_payout)
qed

lemma ledger_inv_emergencyWithdraw:
  assumes "ledger_inv s" "emergencyWithdraw e s = Inr s'"
  shows "ledger_inv s'"
proof -
  from assms(2) have
    "s' = s\<lparr>balance := balance s - balance s,
            sent := sent s @ [(Emergency, 0, owner s, balance s)]\<rparr>"
    by (simp add: emergencyWithdraw_def pay_eq_Inr split: if_splits)
  moreover have "\<And>j. acct_ok j (streams s j) (sent s @ [(Emergency, 0, owner s, balance s)])
      = acct_ok j (streams s j) (sent s)"
    by (simp add: acct_ok_payout)
  ultimately show ?thesis using assms(1) by (simp add: inv_defs)
qed

subsection \<open>The re-entrancy guard\<close>

text \<open>A guarded function succeeds exactly when the guard is not entered and its body
  succeeds on the ledger with the guard entered; the guard is left on the way out.\<close>

lemma nonReentrant_eq_Inr:
  "bindE (nonReentrantBefore s) (\<lambda>s0. bindE (f s0) (\<lambda>s1. Inr (nonReentrantAfter s1))) = Inr s' \<longleftrightarrow>
     \<not> entered s \<and> (\<exists>s1. f (s\<lparr>entered := True\<rparr>) = Inr s1 \<and> s' = s1\<lparr>entered := False\<rparr>)"
  by (cases "f (s\<lparr>entered := True\<rparr>)")
     (auto simp: nonReentrantBefore_def nonReentrantAfter_def)

lemma nonReentrant_eq_Inl:
  "bindE (nonReentrantBefore s) (\<lambda>s0. bindE (f s0) (\<lambda>s1. Inr (nonReentrantAfter s1))) = Inl err \<longleftrightarrow>
     (if entered s then err = ReentrancyGuardReentrantCall
      else f (s\<lparr>entered := True\<rparr>) = Inl err)"
  by (cases "f (s\<lparr>entered := True\<rparr>)")
     (auto simp: nonReentrantBefore_def nonReentrantAfter_def)

lemma createStream_eq_Inr:
  "createStream e v r d t desc s = Inr (i, s') \<longleftrightarrow>
     \<not> entered s \<and>
     (\<exists>s1. createStream_body e v r d t desc (s\<lparr>entered := True\<rparr>) = Inr (i, s1) \<and>
           s' = s1\<lparr>entered := False\<rparr>)"
  by (cases "createStream_body e v r d t desc (s\<lparr>entered := True\<rparr>)")
     (auto simp: createStream_def nonReentrantBefore_def nonReentrantAfter_def)

lemma createGroupStream_eq_Inr:
  "createGroupStream e v rs d t desc s = Inr s' \<longleftrightarrow>
     \<not> entered s \<and>
     (\<exists>s1. createGroupStream_body e v rs d t desc (s\<lparr>entered := True\<rparr>) = Inr s1 \<and>
           s' = s1\<lparr>entered := False\<rparr>)"
  unfolding createGroupStream_def by (rule nonReentrant_eq_Inr)

lemma batchUpdateStreams_eq_Inr:
  "batchUpdateStreams e ids s = Inr s' \<longleftrightarrow>
     \<not> entered s \<and>
     (\<exists>s1. batchUpdateStreams_body e ids (s\<lparr>entered := True\<rparr>) = Inr s1 \<and>
           s' = s1\<lparr>entered := False\<rparr>)"
  unfolding batchUpdateStreams_def by (rule nonReentrant_eq_Inr)

lemma batchUpdateStreams_eq_Inl:
  "batchUpdateStreams e ids s = Inl err \<longleftrightarrow>
     (if entered s then err = ReentrancyGuardReentrantCall
      else batchUpdateStreams_body e ids (s\<lparr>entered := True\<rparr>) = Inl err)"
  unfolding batchUpdateStreams_def by (rule nonReentrant_eq_Inl)

lemma withdrawFromStream_eq_Inr:
  "withdrawFromStream e i s = Inr s' \<longleftrightarrow>
     \<not> entered s \<and>
     (\<exists>s1. withdrawFromStream_body e i (s\<lparr>entered := True\<rparr>) = Inr s1 \<and>
           s' = s1\<lparr>entered := False\<rparr>)"
  unfolding withdrawFromStream_def by (rule nonReentrant_eq_Inr)

lemma cancelStream_eq_Inr:
  "cancelStream e i s = Inr s' \<longleftrightarrow>
     \<not> entered s \<and>
     (\<exists>s1. cancelStream_body e i (s\<lparr>entered := True\<rparr>) = Inr s1 \<and>
           s' = s1\<lparr>entered := False\<rparr>)"
  unfolding cancelStream_def by (rule nonReentrant_eq_Inr)

lemma ledger_inv_createStream:
  assumes "ledger_inv s" "createStream e v b duration t d s = Inr (i, s')"
  shows "ledger_inv s'"
  using assms ledger_inv_createStream_body [of "s\<lparr>entered := True\<rparr>"]
  by (auto simp: createStream_eq_Inr)

lemma ledger_inv_createGroupStream:
  assumes "ledger_inv s" "createGroupStream e v rs duration t d s = Inr s'"
  shows "ledger_inv s'"
  using assms ledger_inv_createGroupStream_body [of "s\<lparr>entered := True\<rparr>"]
  by (auto simp: createGroupStream_eq_Inr)

lemma ledger_inv_batchUpdateStreams:
  assumes "ledger_inv s" "batchUpdateStreams e ids s = Inr s'"
  shows "ledger_inv s'"
  using assms ledger_inv_batchUpdateStreams_body [of "s\<lparr>entered := True\<rparr>"]
  by (auto simp: batchUpdateStreams_eq_Inr)

lemma ledger_inv_withdrawFromStream:
  assumes "ledger_inv s" "withdrawFromStream e i s = Inr s'"
  shows "ledger_inv s'"
  using assms ledger_inv_withdrawFromStream_body [of "s\<lparr>entered := True\<rparr>"]
  by (auto simp: withdrawFromStream_eq_Inr)

lemma ledger_inv_cancelStream:
  assumes "ledger_inv s" "cancelStream e i s = Inr s'"
  shows "ledger_inv s'"
  using assms ledger_inv_cancelStream_body [of "s\<lparr>entered := True\<rparr>"]
  by (auto simp: cancelStream_eq_Inr)

subsection \<open>Every reachable ledger satisfies the invariant\<close>

lemma ledger_inv_execute:
  assumes "ledger_inv s" "execute e c s = Inr s'"
  shows "ledger_inv s'"
proof (cases c)
  case (CreateStream v r d t desc)
  with assms(2) obtain i where "createStream e v r d t desc s = Inr (i, s')"
    by (auto simp: bindE_eq_Inr)
  with assms(1) show ?thesis by (rule ledger_inv_createStream)
next
  case (CreateGroupStream v rs d t desc)
  with assms show ?thesis by (simp add: ledger_inv_createGroupStream)
next
  case (BatchUpdateStreams ids)
  with assms show ?thesis by (simp add: ledger_inv_batchUpdateStreams)
next
  case (WithdrawFromStream i)
  with assms show ?thesis by (simp add: ledger_inv_withdrawFromStream)
next
  case (CancelStream i)
  with assms show ?thesis by (simp add: ledger_inv_cancelStream)
next
  case (SetKeeper a)
  with assms show ?thesis by (auto simp: setKeeper_def split: if_splits)
next
  case Pause
  with assms show ?thesis by (auto simp: pause_def split: if_splits)
next
  case Unpause
  with assms show ?thesis by (auto simp: unpause_def split: if_splits)
next
  case EmergencyWithdraw
  with assms show ?thesis by (simp add: ledger_inv_emergencyWithdraw)
next
  case (TransferOwnership a)
  with assms show ?thesis by (auto simp: transferOwnership_def split: if_splits)
next
  case RenounceOwnership
  with assms show ?thesis by (auto simp: renounceOwnership_def split: if_splits)
qed

lemma reachable_ledger_inv: "reachable s \<Longrightarrow> ledger_inv s"
  by (induction rule: reachable.induct) (auto intro: ledger_inv_constructor ledger_inv_execute)

text \<open>Between two calls the guard is never entered.\<close>

lemma execute_entered:
  assumes "execute e c s = Inr s'" "\<not> entered s"
  shows "\<not> entered s'"
proof (cases c)
  case (CreateStream v r d t desc)
  with assms show ?thesis by (auto simp: bindE_eq_Inr createStream_eq_Inr)
next
  case (CreateGroupStream v rs d t desc)
  with assms show ?thesis by (auto simp: createGroupStream_eq_Inr)
next
  case (BatchUpdateStreams ids)
  with assms show ?thesis by (auto simp: batchUpdateStreams_eq_Inr)
next
  case (WithdrawFromStream i)
  with assms show ?thesis by (auto simp: withdrawFromStream_eq_Inr)
next
  case (CancelStream i)
  with assms show ?thesis by (auto simp: cancelStream_eq_Inr)
next
  case (SetKeeper a)
  with assms show ?thesis by (auto simp: setKeeper_def split: if_splits)
next
  case Pause
  with assms show ?thesis by (auto simp: pause_def split: if_splits)
next
  case Unpause
  with assms show ?thesis by (auto simp: unpause_def split: if_splits)
next
  case EmergencyWithdraw
  with assms show ?thesis
    by (auto simp: emergencyWithdraw_def pay_eq_Inr Let_def split: if_splits)
next
  case (TransferOwnership a)
  with assms show ?thesis by (auto simp: transferOwnership_def split: if_splits)
next
  case RenounceOwnership
  with assms show ?thesis by (auto simp: renounceOwnership_def split: if_splits)
qed

lemma reachable_not_entered: "reachable s \<Longrightarrow> \<not> entered s"
  by (induction rule: reachable.induct) (auto simp: constructor_def dest: execute_entered)

lemma later_reachable: "later s s' \<Longrightarrow> reachable s \<Longrightarrow> reachable s'"
  by (induction rule: later.induct) (auto intro: reachable_step)

subsection \<open>Example ledgers\<close>

lemma reachable_run: "reachable s \<Longrightarrow> run cs s = Inr s' \<Longrightarrow> reachable s'"
proof (induction cs arbitrary: s)
  case Nil
  then show ?case by simp
next
  case (Cons x cs)
  obtain e c where x: "x = (e, c)" by (cases x)
  from Cons.prems(2) obtain s1 where "execute e c s = Inr s1" "run cs s1 = Inr s'"
    by (auto simp: x bindE_eq_Inr)
  with Cons.prems(1) Cons.IH show ?case by (blast intro: reachable_step)
qed

lemmas eval_defs = nonReentrantBefore_def nonReentrantAfter_def
  createStream_def createStream_body_def createStreamInternal_def checked_add_def
  checked_sub_def checked_mul_def uint256_bound_def days365_def constructor_def Let_def
  batchUpdateStreams_def batchUpdateStreams_body_def updateStreamBalance_def
  deactivateStream_def setStream_def pay_def send_def MAX_BATCH_SIZE_def
  MIN_UPDATE_INTERVAL_def cancelStream_def cancelStream_body_def cancelAmounts_def
  withdrawFromStream_def withdrawFromStream_body_def empty_stream_def tx_def

lemma run_two_streams: "run two_streams (constructor 1) = Inr (ledger_after two_streams)"
  by (simp add: ledger_after_def two_streams_def eval_defs)

lemma run_settled_once: "run settled_once (constructor 1) = Inr (ledger_after settled_once)"
  by (simp add: ledger_after_def settled_once_def two_streams_def eval_defs)

lemma run_cancelled: "run cancelled (constructor 1) = Inr (ledger_after cancelled)"
  by (simp add: ledger_after_def cancelled_def settled_once_def two_streams_def eval_defs)

lemma run_expired: "run expired (constructor 1) = Inr (ledger_after expired)"
  by (simp add: ledger_after_def expired_def settled_once_def two_streams_def eval_defs)

subsection \<open>Realization\<close>

lemma paid_append: "paid p i (xs @ ys) = paid p i xs + paid p i ys"
  by (simp add: paid_def)

lemma paid_single: "paid p i [(q, j, a, v)] = (if q = p \<and> j = i then v else 0)"
  by (simp add: paid_def)



lemma realized_values:
  "realTimeBalance (streams (realized e i s) i) =
     realTimeBalance (streams s i) + (newAmountAt (block_timestamp e) (streams s i)
        - newAmountAt (block_timestamp e) (streams s i) div 1000)"
  "lastUpdateTime (streams (realized e i s) i) = block_timestamp e"
  "sent (realized e i s) =
     (if 0 < newAmountAt (block_timestamp e) (streams s i) div 1000
      then sent s @ [(KeeperReward, i, msg_sender e,
                      newAmountAt (block_timestamp e) (streams s i) div 1000)]
      else sent s)"
  "balance (realized e i s) = balance s - newAmountAt (block_timestamp e) (streams s i) div 1000"
  by (simp_all add: realized_def Let_def)



lemma reachable_two_streams: "reachable (ledger_after two_streams)"
  using reachable_init run_two_streams by (rule reachable_run)

lemma two_streams_facts:
  "streams (ledger_after two_streams) 2 =
     \<lparr>sender = 17, recipient = 18, totalAmount = 3600, flowRate = 1, startTime = 1000,
      lastUpdateTime = 1000, stopTime = 4600, amountWithdrawn = 0, realTimeBalance = 0,
      isActive = True, streamType = ''work'', description = ''demo''\<rparr>"
  "sent (ledger_after two_streams) = []"
  "balance (ledger_after two_streams) = 7200"
  "activeStreamIds (ledger_after two_streams) = [1, 2]"
  by (simp_all add: ledger_after_def two_streams_def eval_defs)


subsection \<open>The balance query, the fee bound and the index\<close>

lemma getCurrentBalance_inv:
  assumes inv: "ledger_inv s"
  shows "getCurrentBalance now i s =
     Inr (if \<not> isActive (streams s i) then 0
          else if min now (stopTime (streams s i)) \<le> lastUpdateTime (streams s i)
          then realTimeBalance (streams s i) - amountWithdrawn (streams s i)
          else realTimeBalance (streams s i) + newAmountAt now (streams s i)
                 - amountWithdrawn (streams s i))"
proof (cases "isActive (streams s i)")
  case False
  then show ?thesis by (simp add: getCurrentBalance_def)
next
  case True
  let ?st = "streams s i"
  have a: "acct_ok i ?st (sent s)" using inv by (simp add: inv_defs)
  have l: "lastUpdateTime ?st < stopTime ?st" using inv True by (simp add: inv_defs)
  have aw: "amountWithdrawn ?st \<le> realTimeBalance ?st" using a by (simp add: acct_ok_def)
  have cur: "(if stopTime ?st < now then stopTime ?st else now) = min now (stopTime ?st)"
    by (simp add: min_def)
  show ?thesis
  proof (cases "min now (stopTime ?st) \<le> lastUpdateTime ?st")
    case le: True
    then show ?thesis using True aw cur
      by (simp add: getCurrentBalance_def Let_def checked_sub_def)
  next
    case False
    then have n: "lastUpdateTime ?st < now" by (simp add: min_def split: if_splits)
    note b = newAmount_bounds[OF a l n]
    have nb: "newAmountAt now ?st < uint256_bound"
      and rb: "realTimeBalance ?st + newAmountAt now ?st < uint256_bound"
      using b by linarith+
    have m: "(min now (stopTime ?st) - lastUpdateTime ?st) * flowRate ?st = newAmountAt now ?st"
      by (simp add: newAmountAt_def mult.commute)
    show ?thesis using True False aw cur nb rb m
      by (auto simp: getCurrentBalance_def Let_def checked_mul_def checked_add_def)
  qed
qed

text \<open>
  Claim C2. In a reachable ledger the read-only balance query returns 0 for an inactive
  stream; for an active one, with \<open>effectiveNow = min now stopTime\<close>, it returns
  \<open>realTimeBalance - amountWithdrawn\<close> when \<open>effectiveNow \<le> lastUpdateTime\<close> and
  \<open>max 0 (realTimeBalance + flowRate * (effectiveNow - lastUpdateTime) - amountWithdrawn)\<close>
  otherwise. The differences are taken in the integers, so nothing is hidden by truncated
  subtraction. The query is a function of the ledger that returns no ledger: it cannot
  change one.
\<close>

theorem getCurrentBalance_value:
  assumes "reachable s"
  shows "\<exists>v. getCurrentBalance now i s = Inr v \<and>
     int v =
       (let st = streams s i; effectiveNow = min now (stopTime st) in
        if \<not> isActive st then 0
        else if effectiveNow \<le> lastUpdateTime st
        then int (realTimeBalance st) - int (amountWithdrawn st)
        else max 0 (int (realTimeBalance st)
                    + int (flowRate st) * (int effectiveNow - int (lastUpdateTime st))
                    - int (amountWithdrawn st)))"
proof -
  have inv: "ledger_inv s" using assms by (rule reachable_ledger_inv)
  let ?st = "streams s i"
  have aw: "amountWithdrawn ?st \<le> realTimeBalance ?st" using inv by (simp add: inv_defs acct_ok_def)
  have n: "\<not> min now (stopTime ?st) \<le> lastUpdateTime ?st \<Longrightarrow>
     int (newAmountAt now ?st) =
       int (flowRate ?st) * (int (min now (stopTime ?st)) - int (lastUpdateTime ?st))"
  proof -
    assume "\<not> min now (stopTime ?st) \<le> lastUpdateTime ?st"
    then have "int (min now (stopTime ?st) - lastUpdateTime ?st) =
        int (min now (stopTime ?st)) - int (lastUpdateTime ?st)"
      by (intro of_nat_diff) linarith
    then show ?thesis by (simp add: newAmountAt_def)
  qed
  show ?thesis
    unfolding getCurrentBalance_inv[OF inv] Let_def
    using aw n by (auto simp: of_nat_diff)
qed

theorem getCurrentBalance_value_witness:
  "reachable (ledger_after two_streams) \<and>
   getCurrentBalance 2800 2 (ledger_after two_streams) = Inr 1800"
proof -
  from getCurrentBalance_value[OF reachable_two_streams, of 2800 2]
  have "getCurrentBalance 2800 2 (ledger_after two_streams) = Inr 1800"
    by (auto simp: two_streams_facts Let_def)
  with reachable_two_streams show ?thesis by (rule conjI)
qed

text \<open>
  Claim C4. In every reachable ledger, the keeper fees paid so far out of one stream,
  that is the sum of all transfers made at the keeper-reward call site for that stream,
  are at most \<open>10 / 10000\<close> of the stream's \<open>totalAmount\<close>.
\<close>

theorem keeper_fees_bounded:
  assumes "reachable s"
  shows "10000 * paid KeeperReward i (sent s) \<le> 10 * totalAmount (streams s i)"
proof -
  have inv: "ledger_inv s" using assms by (rule reachable_ledger_inv)
  then have a: "acct_ok i (streams s i) (sent s)" by (simp add: inv_defs)
  then have "1000 * paid KeeperReward i (sent s) \<le> accrued (streams s i)"
    by (simp add: acct_ok_def)
  moreover have "accrued (streams s i) \<le> totalAmount (streams s i)"
    using a by (rule accrued_le_total)
  ultimately show ?thesis by linarith
qed

lemma reachable_settled_once: "reachable (ledger_after settled_once)"
  using reachable_init run_settled_once by (rule reachable_run)

lemma settled_once_facts:
  "streams (ledger_after settled_once) 2 =
     \<lparr>sender = 17, recipient = 18, totalAmount = 3600, flowRate = 1, startTime = 1000,
      lastUpdateTime = 2800, stopTime = 4600, amountWithdrawn = 0, realTimeBalance = 1799,
      isActive = True, streamType = ''work'', description = ''demo''\<rparr>"
  "sent (ledger_after settled_once) = [(KeeperReward, 1, 9, 1), (KeeperReward, 2, 9, 1)]"
  "balance (ledger_after settled_once) = 7198"
  "activeStreamIds (ledger_after settled_once) = [1, 2]"
  "totalUpdatesPerformed (ledger_after settled_once) = 2"
  "lastBatchUpdateTime (ledger_after settled_once) = 2800"
  by (simp_all add: ledger_after_def settled_once_def two_streams_def eval_defs)

theorem keeper_fees_bounded_witness:
  "reachable (ledger_after settled_once) \<and>
   paid KeeperReward 2 (sent (ledger_after settled_once)) = 1 \<and>
   10000 * paid KeeperReward 2 (sent (ledger_after settled_once))
     \<le> 10 * totalAmount (streams (ledger_after settled_once) 2)"
proof -
  have "paid KeeperReward 2 (sent (ledger_after settled_once)) = 1"
    by (simp add: settled_once_facts paid_def)
  with reachable_settled_once keeper_fees_bounded[OF reachable_settled_once, of 2]
  show ?thesis by blast
qed

text \<open>
  Claim C8. In every reachable ledger a stream id is in \<^verbatim>\<open>activeStreamIds\<close> exactly when
  its stream is active, no id occurs twice, and \<^verbatim>\<open>activeStreamIndex\<close> records the
  position of every listed id. Removing an active stream by swap-with-last succeeds,
  removes exactly that id, and leaves an index with the same three properties.
\<close>

theorem active_index_correct:
  assumes "reachable s"
  shows "(\<forall>i. i \<in> set (activeStreamIds s) \<longleftrightarrow> isActive (streams s i)) \<and>
         distinct (activeStreamIds s) \<and>
         (\<forall>k < length (activeStreamIds s). activeStreamIndex s (activeStreamIds s ! k) = k) \<and>
         (\<forall>i. isActive (streams s i) \<longrightarrow>
            (\<exists>s'. deactivateStream i s = Inr s' \<and>
               set (activeStreamIds s') = set (activeStreamIds s) - {i} \<and>
               (\<forall>j. j \<in> set (activeStreamIds s') \<longleftrightarrow> isActive (streams s' j)) \<and>
               distinct (activeStreamIds s') \<and>
               (\<forall>k < length (activeStreamIds s').
                  activeStreamIndex s' (activeStreamIds s' ! k) = k)))"
proof -
  have inv: "index_inv s" using reachable_ledger_inv[OF assms] by (simp add: ledger_inv_def)
  have "\<exists>s'. deactivateStream i s = Inr s' \<and>
               set (activeStreamIds s') = set (activeStreamIds s) - {i} \<and>
               (\<forall>j. j \<in> set (activeStreamIds s') \<longleftrightarrow> isActive (streams s' j)) \<and>
               distinct (activeStreamIds s') \<and>
               (\<forall>k < length (activeStreamIds s').
                  activeStreamIndex s' (activeStreamIds s' ! k) = k)"
    if act: "isActive (streams s i)" for i
  proof -
    have d: "deactivateStream i s = Inr (deactivated i s)"
      using inv act by (rule deactivateStream_active)
    have i': "index_inv (deactivated i s)" using inv act by (rule index_inv_deactivated)
    have "set (activeStreamIds (deactivated i s)) = set (activeStreamIds s) - {i}"
      using i' inv by (auto simp: index_inv_def)
    with d i' show ?thesis unfolding index_inv_def by blast
  qed
  with inv show ?thesis unfolding index_inv_def by blast
qed

theorem active_index_correct_witness:
  "reachable (ledger_after two_streams) \<and>
   activeStreamIds (ledger_after two_streams) = [1, 2] \<and>
   isActive (streams (ledger_after two_streams) 2) \<and>
   (\<exists>s'. deactivateStream 2 (ledger_after two_streams) = Inr s' \<and>
      set (activeStreamIds s') = {1})"
proof -
  have a: "isActive (streams (ledger_after two_streams) 2)" by (simp add: two_streams_facts)
  from active_index_correct[OF reachable_two_streams] a
  have "\<exists>s'. deactivateStream 2 (ledger_after two_streams) = Inr s' \<and>
      set (activeStreamIds s') = set (activeStreamIds (ledger_after two_streams)) - {2}"
    by blast
  then have "\<exists>s'. deactivateStream 2 (ledger_after two_streams) = Inr s' \<and>
      set (activeStreamIds s') = {1}"
    by (simp add: two_streams_facts insert_Diff_if)
  with reachable_two_streams a show ?thesis by (simp add: two_streams_facts)
qed

subsection \<open>Cancellation\<close>

lemma updateStreamBalance_paid:
  assumes "ledger_inv s" "updateStreamBalance e i s = Inr (b, s1)" "p \<noteq> KeeperReward"
  shows "paid p j (sent s1) = paid p j (sent s)"
  using updateStreamBalance_cases[OF assms(1,2)] assms(3)
  by (auto simp: realized_values split: if_splits)

lemma deactivateStream_frame:
  assumes "ledger_inv s" "deactivateStream i s = Inr s'"
  shows "sent s' = sent s" "nextStreamId s' = nextStreamId s"
    "totalAmount (streams s' j) = totalAmount (streams s j)"
    "realTimeBalance (streams s' j) = realTimeBalance (streams s j)"
    "amountWithdrawn (streams s' j) = amountWithdrawn (streams s j)"
    "\<not> isActive (streams s' i)"
proof -
  have "s' = (if isActive (streams s i) then deactivated i s else s)"
    using assms deactivateStream_active[of s i] deactivateStream_inactive[of s i]
    by (auto simp: ledger_inv_def)
  then show "sent s' = sent s" "nextStreamId s' = nextStreamId s"
    "totalAmount (streams s' j) = totalAmount (streams s j)"
    "realTimeBalance (streams s' j) = realTimeBalance (streams s j)"
    "amountWithdrawn (streams s' j) = amountWithdrawn (streams s j)"
    "\<not> isActive (streams s' i)"
    by (simp_all split: if_splits)
qed

lemma payouts_sent:
  assumes "payouts e i st s2 = Inr s'"
  shows "sent s' = sent s2 @
           (if amountWithdrawn st < realTimeBalance st
            then [(RecipientPayout, i, recipient st, realTimeBalance st - amountWithdrawn st)]
            else []) @
           (if realTimeBalance st < totalAmount st
            then [(SenderRefund, i, sender st, totalAmount st - realTimeBalance st)]
            else [])"
    and "streams s' = streams s2"
    and "nextStreamId s' = nextStreamId s2"
proof -
  from assms obtain s3 where
    1: "(if realTimeBalance st - amountWithdrawn st > 0
        then pay e RecipientPayout i (recipient st) (realTimeBalance st - amountWithdrawn st)
               ''StreamPay: Recipient transfer failed'' s2
        else Inr s2) = Inr s3"
    and 2: "(if (if totalAmount st > realTimeBalance st
              then totalAmount st - realTimeBalance st else 0) > 0
          then pay e SenderRefund i (sender st)
                 (if totalAmount st > realTimeBalance st
                  then totalAmount st - realTimeBalance st else 0)
                 ''StreamPay: Sender refund failed'' s3
          else Inr s3) = Inr s'"
    unfolding payouts_def bindE_eq_Inr by blast
  from 1 have 3: "sent s3 = sent s2 @
           (if amountWithdrawn st < realTimeBalance st
            then [(RecipientPayout, i, recipient st, realTimeBalance st - amountWithdrawn st)]
            else [])" "streams s3 = streams s2" "nextStreamId s3 = nextStreamId s2"
    by (cases "amountWithdrawn st < realTimeBalance st"; simp add: pay_eq_Inr)+
  from 2 have "sent s' = sent s3 @
           (if realTimeBalance st < totalAmount st
            then [(SenderRefund, i, sender st, totalAmount st - realTimeBalance st)]
            else [])" "streams s' = streams s3" "nextStreamId s' = nextStreamId s3"
    by (cases "realTimeBalance st < totalAmount st"; simp add: pay_eq_Inr)+
  with 3 show "sent s' = sent s2 @
           (if amountWithdrawn st < realTimeBalance st
            then [(RecipientPayout, i, recipient st, realTimeBalance st - amountWithdrawn st)]
            else []) @
           (if realTimeBalance st < totalAmount st
            then [(SenderRefund, i, sender st, totalAmount st - realTimeBalance st)]
            else [])"
    and "streams s' = streams s2" and "nextStreamId s' = nextStreamId s2" by simp_all
qed

text \<open>What a successful \<^verbatim>\<open>cancelStream\<close> has paid for the stream, in terms of the ledger
  \<open>s1\<close> that the realization inside it produced.\<close>

lemma cancelStream_body_paid:
  assumes inv: "ledger_inv s" and c: "cancelStream_body e i s = Inr s'"
  obtains b s1 where "updateStreamBalance e i s = Inr (b, s1)"
    and "paid RecipientPayout i (sent s') =
           realTimeBalance (streams s1 i) - amountWithdrawn (streams s1 i)"
    and "paid SenderRefund i (sent s') =
           totalAmount (streams s1 i) - realTimeBalance (streams s1 i)"
    and "paid Withdrawal i (sent s') = amountWithdrawn (streams s1 i)"
    and "paid KeeperReward i (sent s') = paid KeeperReward i (sent s1)"
    and "totalAmount (streams s' i) = totalAmount (streams s1 i)"
    and "realTimeBalance (streams s' i) = realTimeBalance (streams s1 i)"
    and "amountWithdrawn (streams s' i) = amountWithdrawn (streams s1 i)"
proof -
  from c obtain b s1 s2 where act: "isActive (streams s i)"
    and u: "updateStreamBalance e i s = Inr (b, s1)"
    and d: "deactivateStream i s1 = Inr s2"
    and po: "payouts e i (streams s1 i) s2 = Inr s'"
    unfolding cancelStream_body_eq_Inr by blast
  have inv1: "ledger_inv s1" using inv u by (rule ledger_inv_updateStreamBalance)
  have a: "acct_ok i (streams s i) (sent s)" and a1: "acct_ok i (streams s1 i) (sent s1)"
    using inv inv1 by (simp_all add: inv_defs)
  have z: "paid RecipientPayout i (sent s1) = 0" "paid SenderRefund i (sent s1) = 0"
    using a act updateStreamBalance_paid[OF inv u] by (simp_all add: acct_ok_def)
  have w: "paid Withdrawal i (sent s1) = amountWithdrawn (streams s1 i)"
    using a1 by (simp add: acct_ok_def)
  note f = deactivateStream_frame[OF inv1 d]
  note p = payouts_sent[OF po]
  have 1: "paid RecipientPayout i (sent s') =
           realTimeBalance (streams s1 i) - amountWithdrawn (streams s1 i)"
    and 2: "paid SenderRefund i (sent s') =
           totalAmount (streams s1 i) - realTimeBalance (streams s1 i)"
    and 3: "paid Withdrawal i (sent s') = amountWithdrawn (streams s1 i)"
    and 4: "paid KeeperReward i (sent s') = paid KeeperReward i (sent s1)"
    using z w by (simp_all add: p(1) f(1) paid_append paid_single)
  have 5: "totalAmount (streams s' i) = totalAmount (streams s1 i)"
    and 6: "realTimeBalance (streams s' i) = realTimeBalance (streams s1 i)"
    and 7: "amountWithdrawn (streams s' i) = amountWithdrawn (streams s1 i)"
    by (simp_all add: p(2) f)
  show thesis using u 1 2 3 4 5 6 7 by (rule that)
qed

lemma settled_once_cancel:
  "cancelStream (tx 3000 17) 2 (ledger_after settled_once) = Inr (ledger_after cancelled)"
  by (simp add: ledger_after_def cancelled_def settled_once_def two_streams_def eval_defs)

lemma cancelled_facts:
  "sent (ledger_after cancelled) =
     [(KeeperReward, 1, 9, 1), (KeeperReward, 2, 9, 1),
      (RecipientPayout, 2, 18, 1999), (SenderRefund, 2, 17, 1601)]"
  "totalAmount (streams (ledger_after cancelled) 2) = 3600"
  "realTimeBalance (streams (ledger_after cancelled) 2) = 1999"
  by (simp_all add: ledger_after_def cancelled_def settled_once_def two_streams_def eval_defs)

lemma run_sole_settled: "run sole_settled (constructor 1) = Inr (ledger_after sole_settled)"
  by (simp add: ledger_after_def sole_settled_def sole_stream_def eval_defs)

lemma sole_settled_facts:
  "balance (ledger_after sole_settled) = 3599"
  "sent (ledger_after sole_settled) = [(KeeperReward, 1, 9, 1)]"
  "totalAmount (streams (ledger_after sole_settled) 1) = 3600"
  by (simp_all add: ledger_after_def sole_settled_def sole_stream_def eval_defs)

lemma sole_settled_cancel:
  "cancelStream (tx 3000 17) 1 (ledger_after sole_settled) =
     Inl (Revert ''StreamPay: Sender refund failed'')"
  by (simp add: ledger_after_def sole_settled_def sole_stream_def eval_defs)

text \<open>
  Claim C3. Cancellation pays the recipient \<open>realTimeBalance - amountWithdrawn\<close> and
  refunds the sender \<open>totalAmount - realTimeBalance\<close>, where \<open>realTimeBalance\<close> was
  reduced by every keeper fee, although the fees have already left the contract. In the
  history \<open>cancelled\<close> stream 2 escrowed 3600; the contract paid the keeper 1 for it,
  and the cancellation pays 1999 and refunds 1601: 3601 in all, the surplus taken from
  the escrow of stream 1. In the history \<open>sole_settled\<close> there is no other stream: the
  contract holds 3599 after the fee, the same cancellation owes 1999 and 1601, and the
  call reverts with \<^verbatim>\<open>StreamPay: Sender refund failed\<close>.
\<close>

theorem cancel_outflow_exceeds_escrow:
  "cancelStream (tx 3000 17) 2 (ledger_after settled_once) = Inr (ledger_after cancelled) \<and>
   totalAmount (streams (ledger_after settled_once) 2) = 3600 \<and>
   sent (ledger_after cancelled) =
     [(KeeperReward, 1, 9, 1), (KeeperReward, 2, 9, 1),
      (RecipientPayout, 2, 18, 1999), (SenderRefund, 2, 17, 1601)] \<and>
   paid KeeperReward 2 (sent (ledger_after cancelled))
     + paid Withdrawal 2 (sent (ledger_after cancelled))
     + paid RecipientPayout 2 (sent (ledger_after cancelled))
     + paid SenderRefund 2 (sent (ledger_after cancelled)) = 3601 \<and>
   totalAmount (streams (ledger_after sole_settled) 1) = 3600 \<and>
   balance (ledger_after sole_settled) = 3599 \<and>
   cancelStream (tx 3000 17) 1 (ledger_after sole_settled) =
     Inl (Revert ''StreamPay: Sender refund failed'')"
proof -
  have "paid KeeperReward 2 (sent (ledger_after cancelled))
     + paid Withdrawal 2 (sent (ledger_after cancelled))
     + paid RecipientPayout 2 (sent (ledger_after cancelled))
     + paid SenderRefund 2 (sent (ledger_after cancelled)) = 3601"
    by (simp add: cancelled_facts paid_def)
  moreover have "totalAmount (streams (ledger_after settled_once) 2) = 3600"
    by (simp add: settled_once_facts)
  ultimately show ?thesis
    using settled_once_cancel cancelled_facts(1) sole_settled_facts(1,3) sole_settled_cancel
    by blast
qed

text \<open>
  Claim C10. When \<^verbatim>\<open>cancelStream\<close> succeeds on a stream of a reachable ledger, the sender
  is refunded \<open>totalAmount - realTimeBalance\<close>, where \<open>realTimeBalance\<close> is net of the
  keeper fees. Everything the contract has then sent out for that stream (withdrawals,
  the cancellation payout, the refund and the keeper fees) is \<open>totalAmount\<close> plus the
  keeper fees: more than the \<open>totalAmount\<close> escrowed at creation as soon as one fee was
  paid.
\<close>

theorem cancel_pays_out_more_than_escrow:
  assumes "reachable s" "cancelStream e i s = Inr s'"
  shows "totalAmount (streams s' i) = totalAmount (streams s i) \<and>
         realTimeBalance (streams s' i) \<le> totalAmount (streams s' i) \<and>
         paid SenderRefund i (sent s') =
           totalAmount (streams s' i) - realTimeBalance (streams s' i) \<and>
         paid Withdrawal i (sent s') + paid RecipientPayout i (sent s')
           + paid SenderRefund i (sent s') + paid KeeperReward i (sent s')
           = totalAmount (streams s' i) + paid KeeperReward i (sent s') \<and>
         (0 < paid KeeperReward i (sent s') \<longrightarrow>
            totalAmount (streams s' i) <
              paid Withdrawal i (sent s') + paid RecipientPayout i (sent s')
                + paid SenderRefund i (sent s') + paid KeeperReward i (sent s'))"
proof -
  let ?s0 = "s\<lparr>entered := True\<rparr>"
  have inv: "ledger_inv ?s0" using assms(1) by (simp add: reachable_ledger_inv)
  from assms(2) obtain s2 where c: "cancelStream_body e i ?s0 = Inr s2"
    and s': "s' = s2\<lparr>entered := False\<rparr>"
    unfolding cancelStream_eq_Inr by blast
  from inv c obtain b s1 where u: "updateStreamBalance e i ?s0 = Inr (b, s1)"
    and rp: "paid RecipientPayout i (sent s2) =
           realTimeBalance (streams s1 i) - amountWithdrawn (streams s1 i)"
    and sr: "paid SenderRefund i (sent s2) =
           totalAmount (streams s1 i) - realTimeBalance (streams s1 i)"
    and wd: "paid Withdrawal i (sent s2) = amountWithdrawn (streams s1 i)"
    and t: "totalAmount (streams s2 i) = totalAmount (streams s1 i)"
    and r: "realTimeBalance (streams s2 i) = realTimeBalance (streams s1 i)"
    by (rule cancelStream_body_paid)
  have inv1: "ledger_inv s1" using inv u by (rule ledger_inv_updateStreamBalance)
  let ?st = "streams s1 i"
  have a1: "acct_ok i ?st (sent s1)" using inv1 by (simp add: inv_defs)
  have le: "amountWithdrawn ?st \<le> realTimeBalance ?st" using a1 by (simp add: acct_ok_def)
  have "realTimeBalance ?st \<le> accrued ?st" using a1 by (simp add: acct_ok_def)
  with accrued_le_total[OF a1] have rt: "realTimeBalance ?st \<le> totalAmount ?st" by simp
  have t0: "totalAmount (streams s1 i) = totalAmount (streams s i)"
    using updateStreamBalance_frame(6)[OF inv u, of i] by simp
  show ?thesis using rp sr wd t r le rt t0 by (simp add: s')
qed

lemma cancelled_paid:
  "paid KeeperReward 2 (sent (ledger_after cancelled)) = 1"
  "paid Withdrawal 2 (sent (ledger_after cancelled)) = 0"
  "paid RecipientPayout 2 (sent (ledger_after cancelled)) = 1999"
  "paid SenderRefund 2 (sent (ledger_after cancelled)) = 1601"
  by (simp_all add: cancelled_facts paid_def)

theorem cancel_pays_out_more_than_escrow_witness:
  "reachable (ledger_after settled_once) \<and>
   cancelStream (tx 3000 17) 2 (ledger_after settled_once) = Inr (ledger_after cancelled) \<and>
   0 < paid KeeperReward 2 (sent (ledger_after cancelled)) \<and>
   totalAmount (streams (ledger_after cancelled) 2) <
     paid Withdrawal 2 (sent (ledger_after cancelled))
       + paid RecipientPayout 2 (sent (ledger_after cancelled))
       + paid SenderRefund 2 (sent (ledger_after cancelled))
       + paid KeeperReward 2 (sent (ledger_after cancelled))"
proof -
  have k: "0 < paid KeeperReward 2 (sent (ledger_after cancelled))"
    by (simp add: cancelled_paid)
  from cancel_pays_out_more_than_escrow[OF reachable_settled_once settled_once_cancel] k
  have "totalAmount (streams (ledger_after cancelled) 2) <
     paid Withdrawal 2 (sent (ledger_after cancelled))
       + paid RecipientPayout 2 (sent (ledger_after cancelled))
       + paid SenderRefund 2 (sent (ledger_after cancelled))
       + paid KeeperReward 2 (sent (ledger_after cancelled))"
    by blast
  with reachable_settled_once settled_once_cancel k show ?thesis by blast
qed

subsection \<open>Inactive streams\<close>

lemma frozen_refl: "frozen i s s"
  by (simp add: frozen_def)

lemma frozen_trans: "frozen i s s1 \<Longrightarrow> frozen i s1 s' \<Longrightarrow> frozen i s s'"
  by (auto simp: frozen_def)

lemma frozen_balance: "frozen i (s\<lparr>balance := b\<rparr>) s' = frozen i s s'"
  by (simp add: frozen_def)

lemma frozen_created:
  "i < nextStreamId s \<Longrightarrow> frozen i s (created now a b amount duration t d s)"
  by (simp add: frozen_def created_def)

lemma frozen_createGroupLoop:
  "createGroupLoop e rs amt duration t d s = Inr s' \<Longrightarrow> i < nextStreamId s \<Longrightarrow> frozen i s s'"
proof (induction rs arbitrary: s)
  case Nil
  then show ?case by (simp add: frozen_refl)
next
  case (Cons r rs)
  from Cons.prems(1) obtain j s1 where
    c: "createStreamInternal (block_timestamp e) (msg_sender e) r amt duration t d s = Inr (j, s1)"
    and l: "createGroupLoop e rs amt duration t d s1 = Inr s'"
    by (auto simp: bindE_eq_Inr split: if_splits)
  from c have s1: "s1 = created (block_timestamp e) (msg_sender e) r amt duration t d s"
    by (simp add: createStreamInternal_eq_Inr)
  have 1: "frozen i s s1" using Cons.prems(2) by (simp add: s1 frozen_created)
  then have "i < nextStreamId s1" using Cons.prems(2) by (simp add: frozen_def)
  with l have "frozen i s1 s'" by (rule Cons.IH)
  with 1 show ?case by (rule frozen_trans)
qed

lemma frozen_updateStreamBalance:
  assumes "ledger_inv s" "updateStreamBalance e j s = Inr (b, s')"
    and "\<not> isActive (streams s i) \<or> j \<noteq> i"
  shows "frozen i s s'"
proof (cases "j = i")
  case True
  with assms(3) have "updateStreamBalance e j s = Inr (False, s)"
    by (intro updateStreamBalance_noop) simp
  with assms(2) show ?thesis by (simp add: frozen_refl)
next
  case False
  then show ?thesis
    using updateStreamBalance_cases[OF assms(1,2)]
    by (auto simp: frozen_def realized_values split: if_splits)
qed

lemma frozen_updateLoop:
  "ledger_inv s \<Longrightarrow> updateLoop e ids c s = Inr (c', s') \<Longrightarrow> \<not> isActive (streams s i) \<Longrightarrow>
   frozen i s s'"
proof (induction ids arbitrary: s c)
  case Nil
  then show ?case by (simp add: frozen_refl)
next
  case (Cons j ids)
  from Cons.prems(2) obtain b s1 c1 where
    u: "updateStreamBalance e j s = Inr (b, s1)" and l: "updateLoop e ids c1 s1 = Inr (c', s')"
    by (auto simp: bindE_eq_Inr split: if_splits)
  have 1: "frozen i s s1" using Cons.prems(1) u Cons.prems(3)
    by (intro frozen_updateStreamBalance) auto
  have "ledger_inv s1" using Cons.prems(1) u by (rule ledger_inv_updateStreamBalance)
  moreover have "\<not> isActive (streams s1 i)" using 1 Cons.prems(3) by (simp add: frozen_def)
  ultimately have "frozen i s1 s'" using l by (intro Cons.IH)
  with 1 show ?case by (rule frozen_trans)
qed

lemma frozen_entered [simp]:
  "frozen i (s\<lparr>entered := b\<rparr>) s' = frozen i s s'"
  "frozen i s (s'\<lparr>entered := b\<rparr>) = frozen i s s'"
  by (simp_all add: frozen_def)

lemma frozen_execute:
  assumes inv0: "ledger_inv s" and x: "execute e c s = Inr s'"
    and ina0: "\<not> isActive (streams s i)" and lt0: "i < nextStreamId s"
  shows "frozen i s s'"
proof -
  let ?s0 = "s\<lparr>entered := True\<rparr>"
  have inv: "ledger_inv ?s0" and ina: "\<not> isActive (streams ?s0 i)"
    and lt: "i < nextStreamId ?s0"
    using inv0 ina0 lt0 by simp_all
  show ?thesis
  proof (cases c)
    case (CreateStream v r d t desc)
    with x obtain j s2 where "createStream_body e v r d t desc ?s0 = Inr (j, s2)"
      and s': "s' = s2\<lparr>entered := False\<rparr>"
      by (auto simp: bindE_eq_Inr createStream_eq_Inr)
    then have "s2 = created (block_timestamp e) (msg_sender e) r v d t desc
        (?s0\<lparr>balance := balance ?s0 + v\<rparr>)"
      by (simp add: createStream_body_def createStreamInternal_eq_Inr split: if_splits)
    then have "frozen i ?s0 s2"
      using lt frozen_created[of i "?s0\<lparr>balance := balance ?s0 + v\<rparr>"]
      by (simp add: frozen_balance)
    then show ?thesis by (simp add: s')
  next
    case (CreateGroupStream v rs d t desc)
    with x obtain s2 where "createGroupStream_body e v rs d t desc ?s0 = Inr s2"
      and s': "s' = s2\<lparr>entered := False\<rparr>"
      by (auto simp: createGroupStream_eq_Inr)
    then have "createGroupLoop e rs (v div length rs) d t desc
        (?s0\<lparr>balance := balance ?s0 + v\<rparr>) = Inr s2"
      by (simp add: createGroupStream_body_def Let_def split: if_splits)
    then have "frozen i (?s0\<lparr>balance := balance ?s0 + v\<rparr>) s2"
      using lt by (intro frozen_createGroupLoop) simp_all
    then have "frozen i ?s0 s2" by (simp add: frozen_balance)
    then show ?thesis by (simp add: s')
  next
    case (BatchUpdateStreams ids)
    with x obtain s2 where b: "batchUpdateStreams_body e ids ?s0 = Inr s2"
      and s': "s' = s2\<lparr>entered := False\<rparr>"
      by (auto simp: batchUpdateStreams_eq_Inr)
    from b obtain cnt s1 where l: "updateLoop e ids 0 ?s0 = Inr (cnt, s1)"
      and s2: "s2 = s1\<lparr>totalUpdatesPerformed := totalUpdatesPerformed s1 + cnt,
                        lastBatchUpdateTime := block_timestamp e\<rparr>"
      by (auto simp: batchUpdateStreams_body_def bindE_eq_Inr checked_add_eq_Inr
          split: if_splits)
    from inv l ina have "frozen i ?s0 s1" by (rule frozen_updateLoop)
    then have "frozen i ?s0 s2" by (simp add: s2 frozen_def)
    then show ?thesis by (simp add: s')
  next
    case (WithdrawFromStream j)
    with x obtain s2 where w: "withdrawFromStream_body e j ?s0 = Inr s2"
      and s': "s' = s2\<lparr>entered := False\<rparr>"
      by (auto simp: withdrawFromStream_eq_Inr)
    from w obtain b s1 where act: "isActive (streams ?s0 j)"
      and u: "updateStreamBalance e j ?s0 = Inr (b, s1)"
      and s2: "s2 = s1\<lparr>streams := (streams s1)(j := (streams s1 j)
                     \<lparr>amountWithdrawn := realTimeBalance (streams s1 j)\<rparr>),
                   balance := balance s1 -
                     (realTimeBalance (streams s1 j) - amountWithdrawn (streams s1 j)),
                   sent := sent s1 @ [(Withdrawal, j, recipient (streams s1 j),
                     realTimeBalance (streams s1 j) - amountWithdrawn (streams s1 j))]\<rparr>"
      unfolding withdrawFromStream_body_eq_Inr by blast
    from act ina have ne: "j \<noteq> i" by auto
    then have "frozen i ?s0 s1" using inv u ina by (intro frozen_updateStreamBalance) auto
    then have "frozen i ?s0 s2" using ne by (simp add: s2 frozen_def)
    then show ?thesis by (simp add: s')
  next
    case (CancelStream j)
    with x obtain s3 where cb: "cancelStream_body e j ?s0 = Inr s3"
      and s': "s' = s3\<lparr>entered := False\<rparr>"
      by (auto simp: cancelStream_eq_Inr)
    from cb obtain b s1 s2 where act: "isActive (streams ?s0 j)"
      and u: "updateStreamBalance e j ?s0 = Inr (b, s1)"
      and d: "deactivateStream j s1 = Inr s2"
      and po: "payouts e j (streams s1 j) s2 = Inr s3"
      unfolding cancelStream_body_eq_Inr by blast
    from act ina have ne: "j \<noteq> i" by auto
    then have 1: "frozen i ?s0 s1" using inv u ina by (intro frozen_updateStreamBalance) auto
    have inv1: "ledger_inv s1" using inv u by (rule ledger_inv_updateStreamBalance)
    have "s2 = (if isActive (streams s1 j) then deactivated j s1 else s1)"
      using inv1 d deactivateStream_active[of s1 j] deactivateStream_inactive[of s1 j]
      by (auto simp: ledger_inv_def)
    then have 2: "frozen i s1 s2" using ne by (simp add: frozen_def)
    have 3: "frozen i s2 s3" using payouts_sent[OF po] ne
      by (simp add: frozen_def paid_append paid_single)
    from 1 2 3 have "frozen i ?s0 s3" by (blast intro: frozen_trans)
    then show ?thesis by (simp add: s')
next
    case (SetKeeper a)
    with x show ?thesis by (auto simp: setKeeper_def frozen_def split: if_splits)
  next
    case Pause
    with x show ?thesis by (auto simp: pause_def frozen_def split: if_splits)
  next
    case Unpause
    with x show ?thesis by (auto simp: unpause_def frozen_def split: if_splits)
  next
    case EmergencyWithdraw
    with x show ?thesis
      by (auto simp: emergencyWithdraw_def pay_eq_Inr frozen_def split: if_splits)
  next
    case (TransferOwnership a)
    with x show ?thesis by (auto simp: transferOwnership_def frozen_def split: if_splits)
  next
    case RenounceOwnership
    with x show ?thesis by (auto simp: renounceOwnership_def frozen_def split: if_splits)
  qed
qed

lemma frozen_later:
  assumes "later s s'"
  shows "reachable s \<Longrightarrow> \<not> isActive (streams s i) \<Longrightarrow> i < nextStreamId s \<Longrightarrow> frozen i s s'"
  using assms
proof (induction rule: later.induct)
  case (later_refl s)
  show ?case by (rule frozen_refl)
next
  case (later_step s s1 e c s')
  have 1: "frozen i s s1" using later_step.IH later_step.prems by simp
  have "reachable s1" using later_step.hyps(1) later_step.prems(1) by (rule later_reachable)
  then have "ledger_inv s1" by (rule reachable_ledger_inv)
  moreover have "\<not> isActive (streams s1 i)" "i < nextStreamId s1"
    using 1 later_step.prems by (auto simp: frozen_def)
  ultimately have "frozen i s1 s'" using later_step.hyps(2) by (intro frozen_execute)
  with 1 show ?case by (rule frozen_trans)
qed

text \<open>
  Claim C9. Once a stream of a reachable ledger is inactive, it stays as it is in every
  later ledger: its record never changes again (so \<open>realTimeBalance - amountWithdrawn\<close>
  stays what it was at deactivation), every \<^verbatim>\<open>withdrawFromStream\<close> and
  \<^verbatim>\<open>cancelStream\<close> on it reverts, \<^verbatim>\<open>getCurrentBalance\<close> reports 0, and no transfer is
  ever made for it again at the withdrawal or the cancellation call sites.
\<close>

theorem inactive_stream_is_locked:
  assumes "reachable s" "\<not> isActive (streams s i)" "i < nextStreamId s" "later s s'"
  shows "streams s' i = streams s i \<and>
         withdrawFromStream e i s' =
           Inl (if paused s' then EnforcedPause else Revert ''StreamPay: Stream not active'') \<and>
         cancelStream e i s' =
           Inl (if paused s' then EnforcedPause
                else Revert ''StreamPay: Stream already inactive'') \<and>
         getCurrentBalance now i s' = Inr 0 \<and>
         paid Withdrawal i (sent s') = paid Withdrawal i (sent s) \<and>
         paid RecipientPayout i (sent s') = paid RecipientPayout i (sent s)"
proof -
  have f: "frozen i s s'" using assms(4,1,2,3) by (rule frozen_later)
  then have ina: "\<not> isActive (streams s' i)" using assms(2) by (simp add: frozen_def)
  have "reachable s'" using assms(4,1) by (rule later_reachable)
  then have g: "\<not> entered s'" by (rule reachable_not_entered)
  have w: "withdrawFromStream e i s' =
      Inl (if paused s' then EnforcedPause else Revert ''StreamPay: Stream not active'')"
    using ina g
    by (simp add: withdrawFromStream_def withdrawFromStream_body_def nonReentrantBefore_def)
  have c: "cancelStream e i s' =
      Inl (if paused s' then EnforcedPause else Revert ''StreamPay: Stream already inactive'')"
    using ina g
    by (simp add: cancelStream_def cancelStream_body_def nonReentrantBefore_def)
  show ?thesis using f ina w c by (simp add: frozen_def getCurrentBalance_def)
qed

lemma run_locked_then_created:
  "run locked_then_created (constructor 1) = Inr (ledger_after locked_then_created)"
  by (simp add: ledger_after_def locked_then_created_def expired_def settled_once_def
      two_streams_def eval_defs)

lemma reachable_expired: "reachable (ledger_after expired)"
  using reachable_init run_expired by (rule reachable_run)

lemma expired_facts:
  "streams (ledger_after expired) 2 =
     \<lparr>sender = 17, recipient = 18, totalAmount = 3600, flowRate = 1, startTime = 1000,
      lastUpdateTime = 5000, stopTime = 4600, amountWithdrawn = 0, realTimeBalance = 3598,
      isActive = False, streamType = ''work'', description = ''demo''\<rparr>"
  "nextStreamId (ledger_after expired) = 3"
  by (simp_all add: ledger_after_def expired_def settled_once_def two_streams_def eval_defs)

lemma expired_later: "later (ledger_after expired) (ledger_after locked_then_created)"
proof -
  have "execute (tx 6000 8) (CreateStream 500 18 100 ''gaming'' ''later'') (ledger_after expired)
      = Inr (ledger_after locked_then_created)"
    by (simp add: ledger_after_def locked_then_created_def expired_def settled_once_def
      two_streams_def eval_defs)
  with later_refl show ?thesis by (rule later_step)
qed

theorem inactive_stream_is_locked_witness:
  "reachable (ledger_after expired) \<and> \<not> isActive (streams (ledger_after expired) 2) \<and>
   2 < nextStreamId (ledger_after expired) \<and>
   later (ledger_after expired) (ledger_after locked_then_created) \<and>
   0 < realTimeBalance (streams (ledger_after locked_then_created) 2)
       - amountWithdrawn (streams (ledger_after locked_then_created) 2) \<and>
   withdrawFromStream (tx 7000 18) 2 (ledger_after locked_then_created) =
     Inl (Revert ''StreamPay: Stream not active'') \<and>
   cancelStream (tx 7000 18) 2 (ledger_after locked_then_created) =
     Inl (Revert ''StreamPay: Stream already inactive'') \<and>
   getCurrentBalance 7000 2 (ledger_after locked_then_created) = Inr 0"
proof -
  have h: "\<not> isActive (streams (ledger_after expired) 2)" "2 < nextStreamId (ledger_after expired)"
    by (simp_all add: expired_facts)
  have p: "\<not> paused (ledger_after locked_then_created)"
    by (simp add: ledger_after_def locked_then_created_def expired_def settled_once_def
      two_streams_def eval_defs)
  note t = inactive_stream_is_locked[OF reachable_expired h expired_later, of "tx 7000 18" 7000]
  from t p have "0 < realTimeBalance (streams (ledger_after locked_then_created) 2)
       - amountWithdrawn (streams (ledger_after locked_then_created) 2) \<and>
   withdrawFromStream (tx 7000 18) 2 (ledger_after locked_then_created) =
     Inl (Revert ''StreamPay: Stream not active'') \<and>
   cancelStream (tx 7000 18) 2 (ledger_after locked_then_created) =
     Inl (Revert ''StreamPay: Stream already inactive'') \<and>
   getCurrentBalance 7000 2 (ledger_after locked_then_created) = Inr 0"
    by (simp add: expired_facts)
  with reachable_expired h expired_later show ?thesis by blast
qed

subsection \<open>Batch settlement\<close>

lemma updateStreamBalance_step:
  assumes inv: "ledger_inv s" and u: "updateStreamBalance e j s = Inr (b, s1)"
  shows "b \<longleftrightarrow> settleable (block_timestamp e) (streams s j)"
    and "settleable (block_timestamp e) (streams s1 k) \<longleftrightarrow>
           settleable (block_timestamp e) (streams s k) \<and> k \<noteq> j"
    and "totalUpdatesPerformed s1 = totalUpdatesPerformed s"
proof -
  note c = updateStreamBalance_cases[OF inv u]
  show "b \<longleftrightarrow> settleable (block_timestamp e) (streams s j)"
    using c by (auto simp: settleable_def)
  show "totalUpdatesPerformed s1 = totalUpdatesPerformed s"
    using c by (auto split: if_splits)
  show "settleable (block_timestamp e) (streams s1 k) \<longleftrightarrow>
           settleable (block_timestamp e) (streams s k) \<and> k \<noteq> j"
  proof (cases "k = j")
    case True
    then show ?thesis using c by (auto simp: settleable_def realized_values split: if_splits)
  next
    case False
    then show ?thesis using c by (auto simp: settleable_def split: if_splits)
  qed
qed

lemma updateLoop_count:
  "ledger_inv s \<Longrightarrow> updateLoop e ids c s = Inr (c', s') \<Longrightarrow>
   c' = c + card {i \<in> set ids. settleable (block_timestamp e) (streams s i)} \<and>
   (\<forall>k. settleable (block_timestamp e) (streams s' k) \<longleftrightarrow>
          settleable (block_timestamp e) (streams s k) \<and> k \<notin> set ids) \<and>
   totalUpdatesPerformed s' = totalUpdatesPerformed s"
proof (induction ids arbitrary: s c)
  case Nil
  then show ?case by simp
next
  case (Cons j ids)
  let ?P = "\<lambda>s i. settleable (block_timestamp e) (streams s i)"
  from Cons.prems(2) obtain b s1 where
    u: "updateStreamBalance e j s = Inr (b, s1)"
    and l: "updateLoop e ids (if b then c + 1 else c) s1 = Inr (c', s')"
    by (auto simp: bindE_eq_Inr checked_add_eq_Inr split: if_splits)
  note st = updateStreamBalance_step[OF Cons.prems(1) u]
  have inv1: "ledger_inv s1" using Cons.prems(1) u by (rule ledger_inv_updateStreamBalance)
  note ih = Cons.IH[OF inv1 l]
  let ?A = "{i \<in> set ids. ?P s1 i}"
  have A: "?A = {i \<in> set ids. ?P s i \<and> i \<noteq> j}" using st(2) by auto
  have fin: "finite ?A" by simp
  have card: "card {i \<in> set (j # ids). ?P s i} = (if b then 1 else 0) + card ?A"
  proof (cases b)
    case True
    then have "{i \<in> set (j # ids). ?P s i} = insert j ?A" using st(1) A by auto
    moreover have "j \<notin> ?A" using A by simp
    ultimately show ?thesis using True fin by simp
  next
    case False
    then have "{i \<in> set (j # ids). ?P s i} = ?A" using st(1) A by auto
    then show ?thesis using False by simp
  qed
  have "c' = c + card {i \<in> set (j # ids). ?P s i}" using ih card by simp
  moreover have "\<forall>k. ?P s' k \<longleftrightarrow> ?P s k \<and> k \<notin> set (j # ids)" using ih st(2) by auto
  moreover have "totalUpdatesPerformed s' = totalUpdatesPerformed s" using ih st(3) by simp
  ultimately show ?case by blast
qed

lemma keeperFeeDue_newAmount:
  "keeperFeeDue now st = (if settleable now st then newAmountAt now st div 1000 else 0)"
  by (simp add: keeperFeeDue_def settleable_def newAmountAt_def)

lemma updateStreamBalance_succeeds:
  assumes inv: "ledger_inv s"
    and acc: "0 < keeperFeeDue (block_timestamp e) (streams s j) \<longrightarrow> accepts e (msg_sender e)"
    and bal: "keeperFeeDue (block_timestamp e) (streams s j) \<le> balance s"
  shows "\<exists>b s1. updateStreamBalance e j s = Inr (b, s1) \<and>
           balance s1 = balance s - keeperFeeDue (block_timestamp e) (streams s j) \<and>
           (\<forall>k. keeperFeeDue (block_timestamp e) (streams s1 k) =
                  (if k = j then 0 else keeperFeeDue (block_timestamp e) (streams s k)))"
proof (cases "settleable (block_timestamp e) (streams s j)")
  case False
  then have "updateStreamBalance e j s = Inr (False, s)"
    by (intro updateStreamBalance_noop) (auto simp: settleable_def)
  then show ?thesis using False by (auto simp: keeperFeeDue_newAmount)
next
  case True
  let ?s' = "if stopTime (streams s j) \<le> block_timestamp e
             then deactivated j (realized e j s) else realized e j s"
  have act: "isActive (streams s j)" and n: "lastUpdateTime (streams s j) < block_timestamp e"
    using True by (simp_all add: settleable_def)
  have fee: "newAmountAt (block_timestamp e) (streams s j) div 1000 \<le> balance s"
    using bal True by (simp add: keeperFeeDue_newAmount)
  have u: "updateStreamBalance e j s = Inr (True, ?s')"
    using updateStreamBalance_active[OF inv act n] acc fee True
    by (auto simp: keeperFeeDue_newAmount)
  have b: "balance ?s' = balance s - keeperFeeDue (block_timestamp e) (streams s j)"
    using True by (simp add: keeperFeeDue_newAmount realized_values)
  have "keeperFeeDue (block_timestamp e) (streams ?s' k) =
          (if k = j then 0 else keeperFeeDue (block_timestamp e) (streams s k))" for k
  proof (cases "k = j")
    case True
    then show ?thesis by (simp add: keeperFeeDue_def realized_values)
  next
    case False
    then show ?thesis by simp
  qed
  with u b show ?thesis by blast
qed

text \<open>A realization fails only at the transfer of a positive keeper fee.\<close>

lemma updateStreamBalance_fails:
  assumes inv: "ledger_inv s" and u: "updateStreamBalance e j s = Inr (b, s1)"
  shows "0 < keeperFeeDue (block_timestamp e) (streams s j) \<longrightarrow> accepts e (msg_sender e)"
    and "keeperFeeDue (block_timestamp e) (streams s j) \<le> balance s"
proof -
  have "(0 < keeperFeeDue (block_timestamp e) (streams s j) \<longrightarrow> accepts e (msg_sender e)) \<and>
        keeperFeeDue (block_timestamp e) (streams s j) \<le> balance s"
  proof (cases "settleable (block_timestamp e) (streams s j)")
    case False
    then show ?thesis by (simp add: keeperFeeDue_newAmount)
  next
    case True
    then have act: "isActive (streams s j)"
      and n: "lastUpdateTime (streams s j) < block_timestamp e"
      by (simp_all add: settleable_def)
    show ?thesis
      using updateStreamBalance_active[OF inv act n] u True
      by (cases "0 < newAmountAt (block_timestamp e) (streams s j) div 1000")
         (auto simp: keeperFeeDue_newAmount split: if_splits)
  qed
  then show "0 < keeperFeeDue (block_timestamp e) (streams s j) \<longrightarrow> accepts e (msg_sender e)"
    and "keeperFeeDue (block_timestamp e) (streams s j) \<le> balance s"
    by simp_all
qed

lemma sum_due_split:
  fixes due :: "nat \<Rightarrow> nat"
  shows "(\<Sum>i \<in> set (j # ids). due i) =
         due j + (\<Sum>i \<in> set ids. if i = j then 0 else due i)"
proof -
  have "(\<Sum>i \<in> set (j # ids). due i) = due j + (\<Sum>i \<in> set ids - {j}. due i)"
    by (simp add: sum.insert_remove)
  moreover have "(\<Sum>i \<in> set ids. if i = j then 0 else due i) = (\<Sum>i \<in> set ids - {j}. due i)"
    by (simp add: sum.If_cases Diff_eq Int_def conj_commute)
  ultimately show ?thesis by simp
qed

lemma updateLoop_succeeds:
  "ledger_inv s \<Longrightarrow>
   (0 < (\<Sum>i \<in> set ids. keeperFeeDue (block_timestamp e) (streams s i)) \<longrightarrow>
      accepts e (msg_sender e)) \<Longrightarrow>
   (\<Sum>i \<in> set ids. keeperFeeDue (block_timestamp e) (streams s i)) \<le> balance s \<Longrightarrow>
   c + length ids < uint256_bound \<Longrightarrow>
   \<exists>c' s'. updateLoop e ids c s = Inr (c', s')"
proof (induction ids arbitrary: s c)
  case Nil
  then show ?case by simp
next
  case (Cons j ids)
  let ?due = "\<lambda>s i. keeperFeeDue (block_timestamp e) (streams s i)"
  note split = sum_due_split[of "?due s" j ids]
  have le: "?due s j \<le> balance s" using split Cons.prems(3) by linarith
  have acc: "0 < ?due s j \<longrightarrow> accepts e (msg_sender e)"
    using split Cons.prems(2) by simp
  have "\<exists>b s1. updateStreamBalance e j s = Inr (b, s1) \<and>
           balance s1 = balance s - ?due s j \<and>
           (\<forall>k. ?due s1 k = (if k = j then 0 else ?due s k))"
    using Cons.prems(1) acc le by (rule updateStreamBalance_succeeds)
  then obtain b s1 where u: "updateStreamBalance e j s = Inr (b, s1)"
    and bal: "balance s1 = balance s - ?due s j"
    and due: "\<forall>k. ?due s1 k = (if k = j then 0 else ?due s k)"
    by blast
  have inv1: "ledger_inv s1" using Cons.prems(1) u by (rule ledger_inv_updateStreamBalance)
  have tail: "(\<Sum>i \<in> set ids. ?due s1 i) = (\<Sum>i \<in> set ids. if i = j then 0 else ?due s i)"
    using due by simp
  have le1: "(\<Sum>i \<in> set ids. ?due s1 i) \<le> balance s1"
    using tail split Cons.prems(3) bal by linarith
  have acc1: "0 < (\<Sum>i \<in> set ids. ?due s1 i) \<longrightarrow> accepts e (msg_sender e)"
    using tail split Cons.prems(2) by simp
  have bnd: "(if b then c + 1 else c) + length ids < uint256_bound"
    using Cons.prems(4) by simp
  have "\<exists>c' s'. updateLoop e ids (if b then c + 1 else c) s1 = Inr (c', s')"
    using inv1 acc1 le1 bnd by (rule Cons.IH)
  then obtain c' s' where "updateLoop e ids (if b then c + 1 else c) s1 = Inr (c', s')"
    by blast
  moreover have "c + 1 < uint256_bound" using Cons.prems(4) by simp
  ultimately show ?case using u by (auto simp: checked_add_def)
qed

lemma updateLoop_fails:
  "ledger_inv s \<Longrightarrow> updateLoop e ids c s = Inr (c', s') \<Longrightarrow>
   (0 < (\<Sum>i \<in> set ids. keeperFeeDue (block_timestamp e) (streams s i)) \<longrightarrow>
      accepts e (msg_sender e)) \<and>
   (\<Sum>i \<in> set ids. keeperFeeDue (block_timestamp e) (streams s i)) \<le> balance s \<and>
   balance s' = balance s - (\<Sum>i \<in> set ids. keeperFeeDue (block_timestamp e) (streams s i))"
proof (induction ids arbitrary: s c)
  case Nil
  then show ?case by simp
next
  case (Cons j ids)
  let ?due = "\<lambda>s i. keeperFeeDue (block_timestamp e) (streams s i)"
  note split = sum_due_split[of "?due s" j ids]
  from Cons.prems(2) obtain b s1 c1 where
    u: "updateStreamBalance e j s = Inr (b, s1)" and l: "updateLoop e ids c1 s1 = Inr (c', s')"
    by (auto simp: bindE_eq_Inr split: if_splits)
  note f = updateStreamBalance_fails[OF Cons.prems(1) u]
  have "\<exists>b s1. updateStreamBalance e j s = Inr (b, s1) \<and>
           balance s1 = balance s - ?due s j \<and>
           (\<forall>k. ?due s1 k = (if k = j then 0 else ?due s k))"
    using Cons.prems(1) f by (rule updateStreamBalance_succeeds)
  then obtain b' s1' where "updateStreamBalance e j s = Inr (b', s1')"
    and "balance s1' = balance s - ?due s j"
    and "\<forall>k. ?due s1' k = (if k = j then 0 else ?due s k)"
    by blast
  with u have bal: "balance s1 = balance s - ?due s j"
    and due: "\<forall>k. ?due s1 k = (if k = j then 0 else ?due s k)"
    by simp_all
  have inv1: "ledger_inv s1" using Cons.prems(1) u by (rule ledger_inv_updateStreamBalance)
  have tail: "(\<Sum>i \<in> set ids. ?due s1 i) = (\<Sum>i \<in> set ids. if i = j then 0 else ?due s i)"
    using due by simp
  note ih = Cons.IH[OF inv1 l]
  have "(\<Sum>i \<in> set (j # ids). ?due s i) \<le> balance s"
    using ih tail split bal f(2) by linarith
  moreover have "0 < (\<Sum>i \<in> set (j # ids). ?due s i) \<longrightarrow> accepts e (msg_sender e)"
  proof
    assume "0 < (\<Sum>i \<in> set (j # ids). ?due s i)"
    then have "0 < ?due s j \<or> 0 < (\<Sum>i \<in> set ids. ?due s1 i)"
      using tail split by linarith
    then show "accepts e (msg_sender e)" using f(1) ih by blast
  qed
  moreover have "balance s' = balance s - (\<Sum>i \<in> set (j # ids). ?due s i)"
    using ih tail split bal f(2) by linarith
  ultimately show ?case by blast
qed

lemma transact_reverted: "execute e c s = Inl err \<Longrightarrow> transact e c s = s"
  by (simp add: transact_def)

lemma uint256_bound_large: "201 < uint256_bound"
  by (simp add: uint256_bound_def)

lemma feesDue_entered [simp]: "feesDue now ids (s\<lparr>entered := b\<rparr>) = feesDue now ids s"
  by (simp add: feesDue_def)

lemma batchUpdateStreams_body_result:
  assumes inv: "ledger_inv s" and b: "batchUpdateStreams_body e ids s = Inr s'"
  shows "totalUpdatesPerformed s' = totalUpdatesPerformed s
           + card {i \<in> set ids. settleable (block_timestamp e) (streams s i)}"
    and "lastBatchUpdateTime s' = block_timestamp e"
    and "\<forall>i \<in> set ids. \<not> settleable (block_timestamp e) (streams s' i)"
    and "balance s' = balance s - feesDue (block_timestamp e) ids s"
proof -
  from b obtain c s1 where l: "updateLoop e ids 0 s = Inr (c, s1)"
    and s': "s' = s1\<lparr>totalUpdatesPerformed := totalUpdatesPerformed s1 + c,
                      lastBatchUpdateTime := block_timestamp e\<rparr>"
    by (auto simp: batchUpdateStreams_body_def bindE_eq_Inr checked_add_eq_Inr split: if_splits)
  note cnt = updateLoop_count[OF inv l]
  show "totalUpdatesPerformed s' = totalUpdatesPerformed s
           + card {i \<in> set ids. settleable (block_timestamp e) (streams s i)}"
    using cnt by (simp add: s')
  show "lastBatchUpdateTime s' = block_timestamp e" by (simp add: s')
  show "\<forall>i \<in> set ids. \<not> settleable (block_timestamp e) (streams s' i)"
    using cnt by (simp add: s')
  show "balance s' = balance s - feesDue (block_timestamp e) ids s"
    using updateLoop_fails[OF inv l] by (simp add: s' feesDue_def)
qed

lemma batchUpdateStreams_body_succeeds:
  assumes inv: "ledger_inv s" and "\<not> paused s" "length ids \<le> MAX_BATCH_SIZE"
    and t: "lastBatchUpdateTime s + MIN_UPDATE_INTERVAL \<le> block_timestamp e"
    and tb: "lastBatchUpdateTime s + MIN_UPDATE_INTERVAL < uint256_bound"
    and acc: "0 < feesDue (block_timestamp e) ids s \<longrightarrow> accepts e (msg_sender e)"
    and bal: "feesDue (block_timestamp e) ids s \<le> balance s"
    and tot: "totalUpdatesPerformed s
                + card {i \<in> set ids. settleable (block_timestamp e) (streams s i)}
              < uint256_bound"
  shows "\<exists>s'. batchUpdateStreams_body e ids s = Inr s'"
proof -
  have "0 + length ids < uint256_bound" using assms(3) uint256_bound_large
    by (simp add: MAX_BATCH_SIZE_def)
  with inv acc bal have "\<exists>c s1. updateLoop e ids 0 s = Inr (c, s1)"
    unfolding feesDue_def by (intro updateLoop_succeeds)
  then obtain c s1 where l: "updateLoop e ids 0 s = Inr (c, s1)" by blast
  note cnt = updateLoop_count[OF inv l]
  have "totalUpdatesPerformed s1 + c < uint256_bound" using cnt tot by simp
  then show ?thesis using assms(2,3) t tb l
    by (simp add: batchUpdateStreams_body_def checked_add_def)
qed

lemma batchUpdateStreams_body_fails:
  assumes inv: "ledger_inv s" and b: "batchUpdateStreams_body e ids s = Inr s'"
  shows "\<not> paused s" "length ids \<le> MAX_BATCH_SIZE"
    "lastBatchUpdateTime s + MIN_UPDATE_INTERVAL \<le> block_timestamp e"
    "lastBatchUpdateTime s + MIN_UPDATE_INTERVAL < uint256_bound"
    "0 < feesDue (block_timestamp e) ids s \<longrightarrow> accepts e (msg_sender e)"
    "feesDue (block_timestamp e) ids s \<le> balance s"
    "totalUpdatesPerformed s
       + card {i \<in> set ids. settleable (block_timestamp e) (streams s i)} < uint256_bound"
proof -
  from b have p: "\<not> paused s" and n: "length ids \<le> MAX_BATCH_SIZE"
    by (auto simp: batchUpdateStreams_body_def split: if_splits)
  from b p n obtain c s1 where
    tb: "lastBatchUpdateTime s + MIN_UPDATE_INTERVAL < uint256_bound"
    and t: "lastBatchUpdateTime s + MIN_UPDATE_INTERVAL \<le> block_timestamp e"
    and l: "updateLoop e ids 0 s = Inr (c, s1)"
    and tot: "totalUpdatesPerformed s1 + c < uint256_bound"
    by (auto simp: batchUpdateStreams_body_def bindE_eq_Inr checked_add_eq_Inr split: if_splits)
  note cnt = updateLoop_count[OF inv l]
  note f = updateLoop_fails[OF inv l]
  show "\<not> paused s" "length ids \<le> MAX_BATCH_SIZE"
    "lastBatchUpdateTime s + MIN_UPDATE_INTERVAL \<le> block_timestamp e"
    "lastBatchUpdateTime s + MIN_UPDATE_INTERVAL < uint256_bound"
    by (rule p n t tb)+
  show "0 < feesDue (block_timestamp e) ids s \<longrightarrow> accepts e (msg_sender e)"
    "feesDue (block_timestamp e) ids s \<le> balance s"
    using f by (simp_all add: feesDue_def)
  show "totalUpdatesPerformed s
       + card {i \<in> set ids. settleable (block_timestamp e) (streams s i)} < uint256_bound"
    using cnt tot by simp
qed

text \<open>
  Claim C7, as amended. In a reachable ledger \<^verbatim>\<open>batchUpdateStreams\<close> reverts exactly when
  the contract is paused, more than \<open>MAX_BATCH_SIZE = 200\<close> ids are supplied, the call
  comes before \<open>lastBatchUpdateTime + 1\<close>, a keeper fee cannot be transferred (a fee is
  due and the caller refuses it, or the contract holds less than the fees due), or one
  of the two checked additions overflows; and a reverted call leaves the ledger as it
  was. Whenever it returns, it has added to \<open>totalUpdatesPerformed\<close> the number of
  distinct supplied ids that were active with \<open>lastUpdateTime < now\<close>, it has set
  \<open>lastBatchUpdateTime = now\<close>, none of the supplied ids is left to settle at \<open>now\<close>,
  and the contract has paid exactly the fees due.
  In any ledger, a call that re-enters the contract while a guarded function is running
  reverts with \<^verbatim>\<open>ReentrancyGuardReentrantCall\<close>.
\<close>

theorem batchUpdateStreams_spec:
  assumes "reachable s"
  shows "((\<exists>err. batchUpdateStreams e ids s = Inl err) \<longleftrightarrow>
            paused s \<or> MAX_BATCH_SIZE < length ids \<or>
            block_timestamp e < lastBatchUpdateTime s + MIN_UPDATE_INTERVAL \<or>
            0 < feesDue (block_timestamp e) ids s \<and> \<not> accepts e (msg_sender e) \<or>
            balance s < feesDue (block_timestamp e) ids s \<or>
            uint256_bound \<le> lastBatchUpdateTime s + MIN_UPDATE_INTERVAL \<or>
            uint256_bound \<le> totalUpdatesPerformed s
              + card {i \<in> set ids. settleable (block_timestamp e) (streams s i)}) \<and>
         (\<forall>err. batchUpdateStreams e ids s = Inl err \<longrightarrow>
            transact e (BatchUpdateStreams ids) s = s) \<and>
         (\<forall>s'. batchUpdateStreams e ids s = Inr s' \<longrightarrow>
            totalUpdatesPerformed s' = totalUpdatesPerformed s
              + card {i \<in> set ids. settleable (block_timestamp e) (streams s i)} \<and>
            lastBatchUpdateTime s' = block_timestamp e \<and>
            (\<forall>i \<in> set ids. \<not> settleable (block_timestamp e) (streams s' i)) \<and>
            balance s' = balance s - feesDue (block_timestamp e) ids s) \<and>
         (\<forall>s0. entered s0 \<longrightarrow>
            batchUpdateStreams e ids s0 = Inl ReentrancyGuardReentrantCall)"
proof -
  let ?s0 = "s\<lparr>entered := True\<rparr>"
  let ?ok = "\<not> paused s \<and> length ids \<le> MAX_BATCH_SIZE \<and>
     lastBatchUpdateTime s + MIN_UPDATE_INTERVAL \<le> block_timestamp e \<and>
     lastBatchUpdateTime s + MIN_UPDATE_INTERVAL < uint256_bound \<and>
     (0 < feesDue (block_timestamp e) ids s \<longrightarrow> accepts e (msg_sender e)) \<and>
     feesDue (block_timestamp e) ids s \<le> balance s \<and>
     totalUpdatesPerformed s
       + card {i \<in> set ids. settleable (block_timestamp e) (streams s i)} < uint256_bound"
  have inv: "ledger_inv ?s0" using assms by (simp add: reachable_ledger_inv)
  have g: "\<not> entered s" using assms by (rule reachable_not_entered)
  have body: "(\<exists>s1. batchUpdateStreams_body e ids ?s0 = Inr s1) \<longleftrightarrow> ?ok"
  proof
    assume "\<exists>s1. batchUpdateStreams_body e ids ?s0 = Inr s1"
    then obtain s1 where "batchUpdateStreams_body e ids ?s0 = Inr s1" ..
    from batchUpdateStreams_body_fails[OF inv this] show ?ok by simp
  next
    assume ?ok
    then show "\<exists>s1. batchUpdateStreams_body e ids ?s0 = Inr s1"
      by (intro batchUpdateStreams_body_succeeds[OF inv]) simp_all
  qed
  have "(\<exists>s'. batchUpdateStreams e ids s = Inr s') \<longleftrightarrow>
        (\<exists>s1. batchUpdateStreams_body e ids ?s0 = Inr s1)"
    using g by (simp add: batchUpdateStreams_eq_Inr)
  with body have ok: "(\<exists>s'. batchUpdateStreams e ids s = Inr s') \<longleftrightarrow> ?ok" by simp
  have "(\<exists>err. batchUpdateStreams e ids s = Inl err) \<longleftrightarrow>
        \<not> (\<exists>s'. batchUpdateStreams e ids s = Inr s')"
    by (cases "batchUpdateStreams e ids s") simp_all
  with ok have 1: "(\<exists>err. batchUpdateStreams e ids s = Inl err) \<longleftrightarrow>
            paused s \<or> MAX_BATCH_SIZE < length ids \<or>
            block_timestamp e < lastBatchUpdateTime s + MIN_UPDATE_INTERVAL \<or>
            0 < feesDue (block_timestamp e) ids s \<and> \<not> accepts e (msg_sender e) \<or>
            balance s < feesDue (block_timestamp e) ids s \<or>
            uint256_bound \<le> lastBatchUpdateTime s + MIN_UPDATE_INTERVAL \<or>
            uint256_bound \<le> totalUpdatesPerformed s
              + card {i \<in> set ids. settleable (block_timestamp e) (streams s i)}"
    by (simp only: not_le not_less de_Morgan_conj not_not not_imp) blast
  have 2: "transact e (BatchUpdateStreams ids) s = s"
    if "batchUpdateStreams e ids s = Inl err" for err
    using that by (simp add: transact_def)
  have 3: "totalUpdatesPerformed s' = totalUpdatesPerformed s
              + card {i \<in> set ids. settleable (block_timestamp e) (streams s i)} \<and>
            lastBatchUpdateTime s' = block_timestamp e \<and>
            (\<forall>i \<in> set ids. \<not> settleable (block_timestamp e) (streams s' i)) \<and>
            balance s' = balance s - feesDue (block_timestamp e) ids s"
    if "batchUpdateStreams e ids s = Inr s'" for s'
  proof -
    from that obtain s1 where b: "batchUpdateStreams_body e ids ?s0 = Inr s1"
      and s': "s' = s1\<lparr>entered := False\<rparr>"
      unfolding batchUpdateStreams_eq_Inr by blast
    from batchUpdateStreams_body_result[OF inv b] show ?thesis by (simp add: s')
  qed
  have 4: "batchUpdateStreams e ids s0 = Inl ReentrancyGuardReentrantCall"
    if "entered s0" for s0
    using that by (simp add: batchUpdateStreams_def nonReentrantBefore_def)
  from 1 2 3 4 show ?thesis by blast
qed

lemma two_streams_more_facts:
  "\<not> paused (ledger_after two_streams)"
  "lastBatchUpdateTime (ledger_after two_streams) = 0"
  "totalUpdatesPerformed (ledger_after two_streams) = 0"
  "streams (ledger_after two_streams) (Suc 0) =
     \<lparr>sender = 7, recipient = 8, totalAmount = 3600, flowRate = 1, startTime = 1000,
      lastUpdateTime = 1000, stopTime = 4600, amountWithdrawn = 0, realTimeBalance = 0,
      isActive = True, streamType = ''work'', description = ''demo''\<rparr>"
  by (simp_all add: ledger_after_def two_streams_def eval_defs)

theorem batchUpdateStreams_spec_witness:
  "reachable (ledger_after two_streams) \<and>
   (\<exists>s'. batchUpdateStreams (tx 2800 9) [2, 2] (ledger_after two_streams) = Inr s' \<and>
      totalUpdatesPerformed s' = 1 \<and> lastBatchUpdateTime s' = 2800 \<and> balance s' = 7199) \<and>
   0 < feesDue 2800 [2, 2] (ledger_after two_streams) \<and>
   \<not> accepts (refusing 2800 9) (msg_sender (refusing 2800 9)) \<and>
   (\<exists>err. batchUpdateStreams (refusing 2800 9) [2, 2] (ledger_after two_streams) = Inl err) \<and>
   transact (refusing 2800 9) (BatchUpdateStreams [2, 2]) (ledger_after two_streams) =
     ledger_after two_streams \<and>
   batchUpdateStreams (tx 2800 9) [2, 2] ((ledger_after two_streams)\<lparr>entered := True\<rparr>) =
     Inl ReentrancyGuardReentrantCall"
proof -
  note t = batchUpdateStreams_spec[OF reachable_two_streams, of "tx 2800 9" "[2, 2]"]
  note r = batchUpdateStreams_spec[OF reachable_two_streams, of "refusing 2800 9" "[2, 2]"]
  have fee: "feesDue 2800 [2, 2] (ledger_after two_streams) = 1"
    by (simp add: feesDue_def keeperFeeDue_def two_streams_facts)
  have set: "{i \<in> set [2, 2]. settleable 2800 (streams (ledger_after two_streams) i)} = {2}"
    by (auto simp: settleable_def two_streams_facts)
  have "\<not> (\<exists>err. batchUpdateStreams (tx 2800 9) [2, 2] (ledger_after two_streams) = Inl err)"
    using t fee set
    by (simp add: two_streams_more_facts two_streams_facts MAX_BATCH_SIZE_def
        MIN_UPDATE_INTERVAL_def tx_def uint256_bound_def)
  then obtain s' where
    s': "batchUpdateStreams (tx 2800 9) [2, 2] (ledger_after two_streams) = Inr s'"
    by (cases "batchUpdateStreams (tx 2800 9) [2, 2] (ledger_after two_streams)") auto
  with t set fee have "totalUpdatesPerformed s' = 1 \<and> lastBatchUpdateTime s' = 2800 \<and>
      balance s' = 7199"
    by (simp add: two_streams_more_facts two_streams_facts tx_def)
  with s' have 1: "\<exists>s'. batchUpdateStreams (tx 2800 9) [2, 2] (ledger_after two_streams) = Inr s' \<and>
      totalUpdatesPerformed s' = 1 \<and> lastBatchUpdateTime s' = 2800 \<and> balance s' = 7199"
    by blast
  have acc: "\<not> accepts (refusing 2800 9) (msg_sender (refusing 2800 9))"
    by (simp add: refusing_def)
  have 2: "\<exists>err. batchUpdateStreams (refusing 2800 9) [2, 2] (ledger_after two_streams) = Inl err"
    using r fee acc by (simp add: refusing_def)
  then have 3: "transact (refusing 2800 9) (BatchUpdateStreams [2, 2]) (ledger_after two_streams) =
     ledger_after two_streams"
    using r by blast
  have 4: "batchUpdateStreams (tx 2800 9) [2, 2] ((ledger_after two_streams)\<lparr>entered := True\<rparr>) =
     Inl ReentrancyGuardReentrantCall"
    using t by simp
  from reachable_two_streams 1 fee acc 2 3 4 show ?thesis by simp
qed

theorem batchUpdateStreams_rejects_counterexample:
  "reachable (ledger_after two_streams) \<and>
   \<not> paused (ledger_after two_streams) \<and>
   \<not> MAX_BATCH_SIZE < length [2::nat] \<and>
   \<not> block_timestamp (refusing 2800 9)
       < lastBatchUpdateTime (ledger_after two_streams) + MIN_UPDATE_INTERVAL \<and>
   batchUpdateStreams (refusing 2800 9) [2] (ledger_after two_streams) =
     Inl (Revert ''StreamPay: Keeper reward failed'')"
proof -
  have "batchUpdateStreams (refusing 2800 9) [2] (ledger_after two_streams) =
     Inl (Revert ''StreamPay: Keeper reward failed'')"
    by (simp add: ledger_after_def two_streams_def eval_defs refusing_def)
  with reachable_two_streams show ?thesis
    by (simp add: two_streams_more_facts MAX_BATCH_SIZE_def MIN_UPDATE_INTERVAL_def refusing_def)
qed

subsection \<open>The keeper agent\<close>

lemma submissions_simps [simp]:
  "submissions [] = []"
  "submissions (TxSent ids # evs) = ids # submissions evs"
  "submissions (NoStreamsToUpdate # evs) = submissions evs"
  "submissions (Analyzing n # evs) = submissions evs"
  "submissions (GasPrice n # evs) = submissions evs"
  "submissions (NotProfitable d # evs) = submissions evs"
  "submissions (Profitable d # evs) = submissions evs"
  "submissions (UpdatingBatch n # evs) = submissions evs"
  "submissions (TxConfirmed # evs) = submissions evs"
  "submissions (BatchFailed # evs) = submissions evs"
  "submissions (KeeperCycleError # evs) = submissions evs"
  "submissions (evs @ evs') = submissions evs @ submissions evs'"
  by (simp_all add: submissions_def)






subsection \<open>Creation\<close>

lemma createStream_body_eq_Inr:
  "createStream_body e v r d t desc s = Inr (i, s') \<longleftrightarrow>
     \<not> paused s \<and> 0 < v \<and> r \<noteq> 0 \<and> r \<noteq> msg_sender e \<and> 0 < d \<and> d \<le> days365 \<and> t \<noteq> [] \<and>
     createStreamInternal (block_timestamp e) (msg_sender e) r v d t desc
       (s\<lparr>balance := balance s + v\<rparr>) = Inr (i, s')"
  by (auto simp: createStream_body_def createStreamInternal_eq_Inr)

text \<open>
  Claim C6, as amended. \<^verbatim>\<open>createStream\<close> succeeds exactly when the call does not re-enter
  the contract, the contract is not paused, \<open>totalAmount > 0\<close>, the recipient is not the
  zero address and differs from the sender, \<open>0 < duration \<le> 365 days\<close>, the stream type
  is not empty, \<open>totalAmount \<ge> duration\<close>, and none of its checked additions (next id,
  stop time, the three counters) overflows. On success the new stream is active with
  \<open>flowRate = totalAmount div duration \<ge> 1\<close>; a call that fails changes nothing.
\<close>

theorem createStream_succeeds_iff:
  "((\<exists>i s'. createStream e v r d t desc s = Inr (i, s')) \<longleftrightarrow>
      \<not> entered s \<and> \<not> paused s \<and> 0 < v \<and> r \<noteq> 0 \<and> r \<noteq> msg_sender e \<and> 0 < d \<and>
      d \<le> 365 * 86400 \<and> t \<noteq> [] \<and> d \<le> v \<and>
      nextStreamId s + 1 < uint256_bound \<and> block_timestamp e + d < uint256_bound \<and>
      totalStreamsCreated s + 1 < uint256_bound \<and> activeStreamCount s + 1 < uint256_bound \<and>
      totalVolumeStreamed s + v < uint256_bound) \<and>
   (\<forall>i s'. createStream e v r d t desc s = Inr (i, s') \<longrightarrow>
      i = nextStreamId s \<and> isActive (streams s' i) \<and> totalAmount (streams s' i) = v \<and>
      flowRate (streams s' i) = v div d \<and> 1 \<le> flowRate (streams s' i) \<and>
      balance s' = balance s + v \<and> \<not> entered s') \<and>
   (\<forall>err. createStream e v r d t desc s = Inl err \<longrightarrow>
      transact e (CreateStream v r d t desc) s = s)"
proof (intro conjI allI impI)
  show "(\<exists>i s'. createStream e v r d t desc s = Inr (i, s')) \<longleftrightarrow>
      \<not> entered s \<and> \<not> paused s \<and> 0 < v \<and> r \<noteq> 0 \<and> r \<noteq> msg_sender e \<and> 0 < d \<and>
      d \<le> 365 * 86400 \<and> t \<noteq> [] \<and> d \<le> v \<and>
      nextStreamId s + 1 < uint256_bound \<and> block_timestamp e + d < uint256_bound \<and>
      totalStreamsCreated s + 1 < uint256_bound \<and> activeStreamCount s + 1 < uint256_bound \<and>
      totalVolumeStreamed s + v < uint256_bound"
    by (auto simp: createStream_eq_Inr createStream_body_eq_Inr createStreamInternal_eq_Inr
        days365_def)
next
  fix i s' assume c: "createStream e v r d t desc s = Inr (i, s')"
  then obtain s1 where b: "createStream_body e v r d t desc (s\<lparr>entered := True\<rparr>) = Inr (i, s1)"
    and s': "s' = s1\<lparr>entered := False\<rparr>"
    unfolding createStream_eq_Inr by blast
  from b have d: "0 < d" "d \<le> v"
    and s1: "s1 = created (block_timestamp e) (msg_sender e) r v d t desc
                    (s\<lparr>entered := True, balance := balance s + v\<rparr>)"
    and i: "i = nextStreamId s"
    by (simp_all add: createStream_body_eq_Inr createStreamInternal_eq_Inr)
  from d have "1 \<le> v div d" by (simp add: Suc_le_eq div_greater_zero_iff)
  then show "i = nextStreamId s" "isActive (streams s' i)" "totalAmount (streams s' i) = v"
    "flowRate (streams s' i) = v div d" "1 \<le> flowRate (streams s' i)"
    "balance s' = balance s + v" "\<not> entered s'"
    by (simp_all add: s' s1 i created_def)
next
  fix err assume "createStream e v r d t desc s = Inl err"
  then show "transact e (CreateStream v r d t desc) s = s" by (simp add: transact_def)
qed

theorem createStream_succeeds_iff_witness:
  "(\<exists>s'. createStream (tx 1000 7) 3600 8 3600 ''work'' ''demo'' (constructor 1) = Inr (1, s') \<and>
        flowRate (streams s' 1) = 1 \<and> balance s' = 3600) \<and>
   (\<exists>err. createStream (tx 1000 7) 3600 8 3600 ''work'' ''demo''
             ((constructor 1)\<lparr>entered := True\<rparr>) = Inl err)"
proof -
  note t = createStream_succeeds_iff[of "tx 1000 7" 3600 8 3600 "''work''" "''demo''"
      "constructor 1"]
  note u = createStream_succeeds_iff[of "tx 1000 7" 3600 8 3600 "''work''" "''demo''"
      "(constructor 1)\<lparr>entered := True\<rparr>"]
  have "\<exists>i s'. createStream (tx 1000 7) 3600 8 3600 ''work'' ''demo'' (constructor 1)
      = Inr (i, s')"
    unfolding t[THEN conjunct1] by (simp add: constructor_def tx_def uint256_bound_def)
  then obtain i s' where
    c: "createStream (tx 1000 7) 3600 8 3600 ''work'' ''demo'' (constructor 1) = Inr (i, s')"
    by blast
  with t have "i = nextStreamId (constructor 1) \<and> flowRate (streams s' i) = 3600 div 3600 \<and>
      balance s' = balance (constructor 1) + 3600" by blast
  then have "i = 1 \<and> flowRate (streams s' 1) = 1 \<and> balance s' = 3600"
    by (auto simp: constructor_def)
  with c have 1: "\<exists>s'. createStream (tx 1000 7) 3600 8 3600 ''work'' ''demo'' (constructor 1)
      = Inr (1, s') \<and> flowRate (streams s' 1) = 1 \<and> balance s' = 3600"
    by auto
  have "\<not> (\<exists>i s'. createStream (tx 1000 7) 3600 8 3600 ''work'' ''demo''
             ((constructor 1)\<lparr>entered := True\<rparr>) = Inr (i, s'))"
    unfolding u[THEN conjunct1] by simp
  then have 2: "\<exists>err. createStream (tx 1000 7) 3600 8 3600 ''work'' ''demo''
             ((constructor 1)\<lparr>entered := True\<rparr>) = Inl err"
    by (cases "createStream (tx 1000 7) 3600 8 3600 ''work'' ''demo''
             ((constructor 1)\<lparr>entered := True\<rparr>)") auto
  from 1 2 show ?thesis by (rule conjI)
qed

theorem createStream_empty_type_counterexample:
  "0 < (3600::nat) \<and> (8::nat) \<noteq> 0 \<and> 8 \<noteq> msg_sender (tx 1000 7) \<and> 0 < (3600::nat) \<and>
   (3600::nat) \<le> 365 * 86400 \<and> (3600::nat) \<ge> 3600 \<and>
   createStream (tx 1000 7) 3600 8 3600 [] ''demo'' (constructor 1) =
     Inl (Revert ''StreamPay: Stream type required'')"
  by (simp add: createStream_def createStream_body_def nonReentrantBefore_def constructor_def
      tx_def days365_def)

end
